theory Spec2Isabelle
  imports Main
begin

section \<open>Data model\<close>

text \<open>
  The batch worker of the repository (package \<open>batch\<close>), the two repositories it drives
  (\<open>BatchRunRepository\<close>, \<open>BatchMessageRepository\<close>) and the batch HTTP handler that
  creates and deletes runs. Tables are lists of rows in insertion (rowid) order. A point in
  time (\<open>time.Time\<close>) and a \<open>time.Duration\<close> are integers counting nanoseconds; the
  value SQLite stores for \<open>CURRENT_TIMESTAMP\<close> is an integer supplied by the environment.
\<close>

type_synonym error = string
type_synonym timestamp = int

datatype BatchRunStatus =
    BatchStatusQueued
  | BatchStatusRunning
  | BatchStatusCompleted
  | BatchStatusCancelled
  | BatchStatusFailed

fun status_string :: "BatchRunStatus \<Rightarrow> string" where
  "status_string BatchStatusQueued = ''queued''"
| "status_string BatchStatusRunning = ''running''"
| "status_string BatchStatusCompleted = ''completed''"
| "status_string BatchStatusCancelled = ''cancelled''"
| "status_string BatchStatusFailed = ''failed''"

record BatchRun =
  ID :: int
  DraftID :: int
  GroupID :: int
  GroupName :: string
  DraftTitle :: string
  Status :: BatchRunStatus
  TotalCount :: int
  SentCount :: int
  FailedCount :: int
  ErrorMessage :: "string option"
  StartedAt :: "timestamp option"
  CompletedAt :: "timestamp option"
  CreatedAt :: timestamp

datatype BatchMessageStatus =
    MessageStatusPending
  | MessageStatusSending
  | MessageStatusSent
  | MessageStatusFailed

record BatchMessage =
  MsgID :: int
  BatchRunID :: int
  JID :: string
  ContactName :: "string option"
  MsgStatus :: BatchMessageStatus
  TemplateContent :: string
  SentContent :: "string option"
  MsgErrorMessage :: "string option"
  SentAt :: "timestamp option"
  MsgCreatedAt :: timestamp

record MessageDraft =
  DraftRowID :: int
  Title :: string
  Content :: string

text \<open>
  The SQLite database: the three tables the worker reads and writes, and the two
  \<open>AUTOINCREMENT\<close> sequences, which never hand out an identifier twice.
\<close>

record Store =
  batch_runs :: "BatchRun list"
  batch_messages :: "BatchMessage list"
  message_drafts :: "MessageDraft list"
  next_run_id :: int
  next_message_id :: int
  next_draft_id :: int

record ActiveBatchState =
  BatchID :: int
  DraftContent :: string
  CurrentJID :: string
  CurrentName :: string

record MessageInfo =
  InfoJID :: string
  InfoContactName :: string
  InfoSentContent :: string
  InfoSentAt :: timestamp
  InfoStatus :: string
  InfoError :: string

record ProgressEvent =
  EvType :: string
  EvBatchID :: int
  EvStatus :: string
  EvTotalCount :: int
  EvSentCount :: int
  EvFailedCount :: int
  CurrentContact :: string
  NextSendInSeconds :: int
  LastMessage :: "MessageInfo option"
  EvErrorMessage :: string

text \<open>The zero value of a \<open>ProgressEvent\<close> struct literal: every field not set is empty.\<close>

definition zero_event :: ProgressEvent where
  "zero_event = \<lparr>EvType = [], EvBatchID = 0, EvStatus = [], EvTotalCount = 0,
     EvSentCount = 0, EvFailedCount = 0, CurrentContact = [], NextSendInSeconds = 0,
     LastMessage = None, EvErrorMessage = []\<rparr>"

text \<open>
  A subscriber channel \<open>make(chan *ProgressEvent, 10)\<close>: its identity, the events
  buffered in it (oldest first) and its capacity.
\<close>

record Chan =
  chan_id :: nat
  chan_buf :: "ProgressEvent list"
  chan_cap :: nat

record Worker =
  currentRun :: "ActiveBatchState option"
  nextSendAt :: timestamp
  subscribers :: "int \<Rightarrow> Chan list"
  chan_alloc :: nat

text \<open>
  A goroutine that has not finished. \<open>go w.checkQueue()\<close> runs in three critical
  sections: reading \<open>currentRun\<close> under the worker's lock, the query \<open>GetNextQueued\<close>
  under the database lock, and \<open>startBatch\<close>. The goroutine that serves a
  \<open>createBatch\<close> request makes two store calls, \<open>Create\<close> and \<open>CreateMultiple\<close>, with
  no lock held from one to the other: \<open>GoCreateBatch_insert\<close> is that goroutine between
  the two, with the identifier of the run it has inserted and the messages it is about to
  insert.
\<close>

datatype Goroutine =
    GoBroadcastEvent int ProgressEvent
  | GoCheckQueue
  | GoCheckQueue_fetch
  | GoCheckQueue_start BatchRun
  | GoCreateBatch_insert int "BatchMessage list"

text \<open>
  The whole system: the store, the worker's memory, the goroutines in flight, and the log
  of the calls made to the transport (message id, recipient, text).
\<close>

record System =
  store :: Store
  worker :: Worker
  goroutines :: "Goroutine list"
  transport_log :: "(int \<times> string \<times> string) list"

section \<open>Environment\<close>

text \<open>
  What the code reads from outside during one step: which store calls return an error,
  the clock, the random draw, the transport and the placeholder resolver. One reading of
  each is used for the whole step.
\<close>

datatype db_call =
    DB_GetByID | DB_GetActive | DB_GetNextQueued | DB_Start | DB_Complete | DB_Cancel
  | DB_Fail | DB_IncrementSentCount | DB_IncrementFailedCount | DB_Delete | DB_Create
  | DB_DraftGetByID | DB_CreateMultiple | DB_GetNextPending | DB_MarkSending
  | DB_MarkSent | DB_MarkFailed

definition all_db_calls :: "db_call list" where
  "all_db_calls = [DB_GetByID, DB_GetActive, DB_GetNextQueued, DB_Start, DB_Complete,
     DB_Cancel, DB_Fail, DB_IncrementSentCount, DB_IncrementFailedCount, DB_Delete,
     DB_Create, DB_DraftGetByID, DB_CreateMultiple, DB_GetNextPending, DB_MarkSending,
     DB_MarkSent, DB_MarkFailed]"

record Env =
  fails :: "db_call \<Rightarrow> bool"
  clock :: timestamp
  clock_sched :: timestamp
  db_time :: timestamp
  rand_int63 :: nat
  is_connected :: bool
  attr_error :: "error option"
  fill_placeholders :: "string \<Rightarrow> string"
  send_error :: "error option"

definition reliable :: "Env \<Rightarrow> bool" where
  "reliable env = list_all (\<lambda>c. \<not> fails env c) all_db_calls"

section \<open>Repositories\<close>

definition update_rows :: "('a \<Rightarrow> bool) \<Rightarrow> ('a \<Rightarrow> 'a) \<Rightarrow> 'a list \<Rightarrow> 'a list" where
  "update_rows P f rows = map (\<lambda>r. if P r then f r else r) rows"

text \<open>\<open>ORDER BY created_at ASC LIMIT 1\<close>: the row with the least key, the first such row
  of the table among equals.\<close>

fun oldest :: "('a \<Rightarrow> int) \<Rightarrow> 'a list \<Rightarrow> 'a option" where
  "oldest key [] = None"
| "oldest key (x # xs) =
     (case oldest key xs of
        None \<Rightarrow> Some x
      | Some y \<Rightarrow> if key y < key x then Some y else Some x)"

definition or_unchanged :: "Store \<Rightarrow> error + Store \<Rightarrow> Store" where
  "or_unchanged st r = (case r of Inl _ \<Rightarrow> st | Inr st' \<Rightarrow> st')"

subsection \<open>BatchRunRepository\<close>

definition BatchRun_GetByID :: "bool \<Rightarrow> int \<Rightarrow> Store \<Rightarrow> error + BatchRun option" where
  "BatchRun_GetByID fl i st =
     (if fl then Inl ''failed to get batch run''
      else Inr (find (\<lambda>r. ID r = i) (batch_runs st)))"

definition GetActive :: "bool \<Rightarrow> Store \<Rightarrow> error + BatchRun option" where
  "GetActive fl st =
     (if fl then Inl ''failed to get active batch run''
      else Inr (find (\<lambda>r. Status r = BatchStatusRunning) (batch_runs st)))"

definition GetNextQueued :: "bool \<Rightarrow> Store \<Rightarrow> error + BatchRun option" where
  "GetNextQueued fl st =
     (if fl then Inl ''failed to get next queued batch run''
      else Inr (oldest CreatedAt (filter (\<lambda>r. Status r = BatchStatusQueued) (batch_runs st))))"

definition Start :: "bool \<Rightarrow> timestamp \<Rightarrow> int \<Rightarrow> Store \<Rightarrow> error + Store" where
  "Start fl ts i st =
     (if fl then Inl ''failed to start batch run''
      else Inr (st\<lparr>batch_runs := update_rows (\<lambda>r. ID r = i)
                  (\<lambda>r. r\<lparr>Status := BatchStatusRunning, StartedAt := Some ts\<rparr>)
                  (batch_runs st)\<rparr>))"

definition Complete :: "bool \<Rightarrow> timestamp \<Rightarrow> int \<Rightarrow> Store \<Rightarrow> error + Store" where
  "Complete fl ts i st =
     (if fl then Inl ''failed to complete batch run''
      else Inr (st\<lparr>batch_runs := update_rows (\<lambda>r. ID r = i)
                  (\<lambda>r. r\<lparr>Status := BatchStatusCompleted, CompletedAt := Some ts\<rparr>)
                  (batch_runs st)\<rparr>))"

definition Cancel :: "bool \<Rightarrow> timestamp \<Rightarrow> int \<Rightarrow> Store \<Rightarrow> error + Store" where
  "Cancel fl ts i st =
     (if fl then Inl ''failed to cancel batch run''
      else Inr (st\<lparr>batch_runs := update_rows
                  (\<lambda>r. ID r = i \<and> (Status r = BatchStatusQueued \<or> Status r = BatchStatusRunning))
                  (\<lambda>r. r\<lparr>Status := BatchStatusCancelled, CompletedAt := Some ts\<rparr>)
                  (batch_runs st)\<rparr>))"

definition Fail :: "bool \<Rightarrow> timestamp \<Rightarrow> int \<Rightarrow> string \<Rightarrow> Store \<Rightarrow> error + Store" where
  "Fail fl ts i errorMessage st =
     (if fl then Inl ''failed to fail batch run''
      else Inr (st\<lparr>batch_runs := update_rows (\<lambda>r. ID r = i)
                  (\<lambda>r. r\<lparr>Status := BatchStatusFailed, ErrorMessage := Some errorMessage,
                         CompletedAt := Some ts\<rparr>)
                  (batch_runs st)\<rparr>))"

definition IncrementSentCount :: "bool \<Rightarrow> int \<Rightarrow> Store \<Rightarrow> error + Store" where
  "IncrementSentCount fl i st =
     (if fl then Inl ''failed to increment sent count''
      else Inr (st\<lparr>batch_runs := update_rows (\<lambda>r. ID r = i)
                  (\<lambda>r. r\<lparr>SentCount := SentCount r + 1\<rparr>) (batch_runs st)\<rparr>))"

definition IncrementFailedCount :: "bool \<Rightarrow> int \<Rightarrow> Store \<Rightarrow> error + Store" where
  "IncrementFailedCount fl i st =
     (if fl then Inl ''failed to increment failed count''
      else Inr (st\<lparr>batch_runs := update_rows (\<lambda>r. ID r = i)
                  (\<lambda>r. r\<lparr>FailedCount := FailedCount r + 1\<rparr>) (batch_runs st)\<rparr>))"

text \<open>\<open>DELETE ... WHERE id = ? AND status != 'running'\<close>; the messages of a deleted run
  go with it (\<open>ON DELETE CASCADE\<close>, foreign keys are on). The flag returned is
  \<open>rowsAffected > 0\<close>.\<close>

definition BatchRun_Delete :: "bool \<Rightarrow> int \<Rightarrow> Store \<Rightarrow> error + (bool \<times> Store)" where
  "BatchRun_Delete fl i st =
     (if fl then Inl ''failed to delete batch run''
      else if \<exists>r \<in> set (batch_runs st). ID r = i \<and> Status r \<noteq> BatchStatusRunning
      then Inr (True, st\<lparr>
             batch_runs := filter (\<lambda>r. \<not> (ID r = i \<and> Status r \<noteq> BatchStatusRunning)) (batch_runs st),
             batch_messages := filter (\<lambda>m. BatchRunID m \<noteq> i) (batch_messages st)\<rparr>)
      else Inr (False, st))"

text \<open>\<open>Create\<close> inserts the row with the counters at 0 and the next identifier of the
  sequence, and returns that identifier.\<close>

definition BatchRun_Create :: "bool \<Rightarrow> timestamp \<Rightarrow> BatchRun \<Rightarrow> Store \<Rightarrow> error + (int \<times> Store)" where
  "BatchRun_Create fl ts run st =
     (if fl then Inl ''failed to create batch run''
      else Inr (next_run_id st,
             st\<lparr>batch_runs := batch_runs st @
                   [run\<lparr>ID := next_run_id st, SentCount := 0, FailedCount := 0,
                        ErrorMessage := None, StartedAt := None, CompletedAt := None,
                        CreatedAt := ts\<rparr>],
                 next_run_id := next_run_id st + 1\<rparr>))"

subsection \<open>DraftRepository\<close>

definition Draft_GetByID :: "bool \<Rightarrow> int \<Rightarrow> Store \<Rightarrow> error + MessageDraft option" where
  "Draft_GetByID fl i st =
     (if fl then Inl ''failed to get draft''
      else Inr (find (\<lambda>d. DraftRowID d = i) (message_drafts st)))"

definition Draft_Create :: "string \<Rightarrow> string \<Rightarrow> Store \<Rightarrow> Store" where
  "Draft_Create title content st =
     st\<lparr>message_drafts := message_drafts st @
          [\<lparr>DraftRowID = next_draft_id st, Title = title, Content = content\<rparr>],
        next_draft_id := next_draft_id st + 1\<rparr>"

text \<open>A draft that a batch run refers to cannot be deleted: \<open>batch_runs.draft_id\<close> is a
  foreign key and foreign keys are enforced.\<close>

definition Draft_Delete :: "int \<Rightarrow> Store \<Rightarrow> error + Store" where
  "Draft_Delete i st =
     (if \<exists>r \<in> set (batch_runs st). DraftID r = i then Inl ''failed to delete draft''
      else Inr (st\<lparr>message_drafts := filter (\<lambda>d. DraftRowID d \<noteq> i) (message_drafts st)\<rparr>))"

subsection \<open>BatchMessageRepository\<close>

text \<open>\<open>CreateMultiple\<close> inserts the rows in one transaction: all of them or none. A
  message refers to its run by a foreign key, and foreign keys are enforced: the insert of
  a message whose run is not in the table fails.\<close>

fun number_from :: "int \<Rightarrow> BatchMessage list \<Rightarrow> BatchMessage list" where
  "number_from n [] = []"
| "number_from n (m # ms) = m\<lparr>MsgID := n\<rparr> # number_from (n + 1) ms"

definition CreateMultiple :: "bool \<Rightarrow> timestamp \<Rightarrow> BatchMessage list \<Rightarrow> Store \<Rightarrow> error + Store" where
  "CreateMultiple fl ts messages st =
     (if fl then Inl ''failed to commit transaction''
      else if \<exists>m \<in> set messages. \<forall>r \<in> set (batch_runs st). ID r \<noteq> BatchRunID m
      then Inl ''failed to create message''
      else Inr (st\<lparr>batch_messages := batch_messages st @
                    number_from (next_message_id st)
                      (map (\<lambda>m. m\<lparr>SentContent := None, MsgErrorMessage := None, SentAt := None,
                                  MsgCreatedAt := ts\<rparr>) messages),
                  next_message_id := next_message_id st + int (length messages)\<rparr>))"

definition GetNextPending :: "bool \<Rightarrow> int \<Rightarrow> Store \<Rightarrow> error + BatchMessage option" where
  "GetNextPending fl batchRunID st =
     (if fl then Inl ''failed to get next pending message''
      else Inr (oldest MsgCreatedAt
             (filter (\<lambda>m. BatchRunID m = batchRunID \<and> MsgStatus m = MessageStatusPending)
                (batch_messages st))))"

definition MarkSending :: "bool \<Rightarrow> int \<Rightarrow> Store \<Rightarrow> error + Store" where
  "MarkSending fl i st =
     (if fl then Inl ''failed to mark message as sending''
      else Inr (st\<lparr>batch_messages := update_rows (\<lambda>m. MsgID m = i)
                  (\<lambda>m. m\<lparr>MsgStatus := MessageStatusSending\<rparr>) (batch_messages st)\<rparr>))"

definition MarkSent :: "bool \<Rightarrow> timestamp \<Rightarrow> int \<Rightarrow> string \<Rightarrow> Store \<Rightarrow> error + Store" where
  "MarkSent fl ts i sentContent st =
     (if fl then Inl ''failed to mark message as sent''
      else Inr (st\<lparr>batch_messages := update_rows (\<lambda>m. MsgID m = i)
                  (\<lambda>m. m\<lparr>MsgStatus := MessageStatusSent, SentContent := Some sentContent,
                         SentAt := Some ts\<rparr>) (batch_messages st)\<rparr>))"

definition MarkFailed :: "bool \<Rightarrow> int \<Rightarrow> string \<Rightarrow> Store \<Rightarrow> error + Store" where
  "MarkFailed fl i errorMessage st =
     (if fl then Inl ''failed to mark message as failed''
      else Inr (st\<lparr>batch_messages := update_rows (\<lambda>m. MsgID m = i)
                  (\<lambda>m. m\<lparr>MsgStatus := MessageStatusFailed,
                         MsgErrorMessage := Some errorMessage\<rparr>) (batch_messages st)\<rparr>))"

section \<open>Worker\<close>

definition Second :: int where
  "Second = 1000000000"

definition Millisecond :: int where
  "Millisecond = 1000000"

text \<open>\<open>rand.Int63n(n)\<close> for \<open>n > 0\<close>: the accepted 63-bit draw reduced modulo \<open>n\<close>
  (the only call passes 5000; the function panics for \<open>n \<le> 0\<close>).\<close>

definition Int63n :: "nat \<Rightarrow> int \<Rightarrow> int" where
  "Int63n draw n = int draw mod n"

text \<open>\<open>int(d.Seconds())\<close>: the duration in whole seconds, rounded towards zero.\<close>

definition whole_seconds :: "int \<Rightarrow> int" where
  "whole_seconds d = (if d < 0 then - ((- d) div Second) else d div Second)"

definition extractPhone :: "string \<Rightarrow> string" where
  "extractPhone jid = takeWhile (\<lambda>c. c \<noteq> CHR ''@'') jid"

subsection \<open>Progress broadcaster\<close>

text \<open>A send on a buffered channel, \<open>ch <- event\<close>: it goes through when the buffer
  has room and has to wait otherwise.\<close>

datatype send_result = Queued Chan | WouldBlock

definition chan_send :: "ProgressEvent \<Rightarrow> Chan \<Rightarrow> send_result" where
  "chan_send event ch =
     (if length (chan_buf ch) < chan_cap ch then Queued (ch\<lparr>chan_buf := chan_buf ch @ [event]\<rparr>)
      else WouldBlock)"

text \<open>\<open>select { case ch <- event: default: }\<close>: the send is made when it can go through
  at once; otherwise the empty \<open>default\<close> branch is taken and the event is dropped.\<close>

definition try_send :: "ProgressEvent \<Rightarrow> Chan \<Rightarrow> Chan" where
  "try_send event ch = (case chan_send event ch of Queued ch' \<Rightarrow> ch' | WouldBlock \<Rightarrow> ch)"

definition broadcastEvent :: "int \<Rightarrow> ProgressEvent \<Rightarrow> System \<Rightarrow> System" where
  "broadcastEvent batchID event s =
     s\<lparr>worker := (worker s)\<lparr>subscribers :=
          (subscribers (worker s))(batchID := map (try_send event) (subscribers (worker s) batchID))\<rparr>\<rparr>"

definition Subscribe :: "int \<Rightarrow> System \<Rightarrow> Chan \<times> System" where
  "Subscribe batchID s =
     (let ch = \<lparr>chan_id = chan_alloc (worker s), chan_buf = [], chan_cap = 10\<rparr>
      in (ch, s\<lparr>worker := (worker s)\<lparr>
                  subscribers := (subscribers (worker s))(batchID := subscribers (worker s) batchID @ [ch]),
                  chan_alloc := chan_alloc (worker s) + 1\<rparr>\<rparr>))"

fun remove_chan :: "nat \<Rightarrow> Chan list \<Rightarrow> Chan list" where
  "remove_chan c [] = []"
| "remove_chan c (sub # subs) = (if chan_id sub = c then subs else sub # remove_chan c subs)"

definition Unsubscribe :: "int \<Rightarrow> nat \<Rightarrow> System \<Rightarrow> System" where
  "Unsubscribe batchID c s =
     s\<lparr>worker := (worker s)\<lparr>subscribers :=
          (subscribers (worker s))(batchID := remove_chan c (subscribers (worker s) batchID))\<rparr>\<rparr>"

definition GetProgress :: "Env \<Rightarrow> timestamp \<Rightarrow> int \<Rightarrow> System \<Rightarrow> error + ProgressEvent" where
  "GetProgress env now batchID s =
     (case BatchRun_GetByID (fails env DB_GetByID) batchID (store s) of
        Inl err \<Rightarrow> Inl err
      | Inr None \<Rightarrow> Inl ''batch not found''
      | Inr (Some run) \<Rightarrow>
          (let nextSend = nextSendAt (worker s);
               currentName = (case currentRun (worker s) of
                                None \<Rightarrow> []
                              | Some c \<Rightarrow> if BatchID c = batchID then CurrentName c else []);
               nextSendSeconds =
                 (if Status run = BatchStatusRunning
                  then (if whole_seconds (nextSend - now) < 0 then 0
                        else whole_seconds (nextSend - now))
                  else 0)
           in Inr \<lparr>EvType = ''progress'', EvBatchID = batchID,
                    EvStatus = status_string (Status run), EvTotalCount = TotalCount run,
                    EvSentCount = SentCount run, EvFailedCount = FailedCount run,
                    CurrentContact = currentName, NextSendInSeconds = nextSendSeconds,
                    LastMessage = None, EvErrorMessage = []\<rparr>))"

definition broadcastProgress :: "Env \<Rightarrow> timestamp \<Rightarrow> int \<Rightarrow> System \<Rightarrow> System" where
  "broadcastProgress env now batchID s =
     (case GetProgress env now batchID s of
        Inl _ \<Rightarrow> s
      | Inr progress \<Rightarrow> broadcastEvent batchID progress s)"

subsection \<open>Pacer\<close>

definition next_delay :: "Env \<Rightarrow> int" where
  "next_delay env =
     (let minDelay = 10 * Second;
          maxDelay = 15 * Second;
          delta = maxDelay - minDelay;
          randomMs = Int63n (rand_int63 env) (delta div Millisecond)
      in minDelay + randomMs * Millisecond)"

definition scheduleNextMessage :: "Env \<Rightarrow> System \<Rightarrow> System" where
  "scheduleNextMessage env s =
     s\<lparr>worker := (worker s)\<lparr>nextSendAt := clock_sched env + next_delay env\<rparr>\<rparr>"

subsection \<open>Scheduler\<close>

definition startBatch :: "Env \<Rightarrow> BatchRun \<Rightarrow> System \<Rightarrow> System" where
  "startBatch env run s =
     (case Draft_GetByID (fails env DB_DraftGetByID) (DraftID run) (store s) of
        Inr (Some draft) \<Rightarrow>
          (case Start (fails env DB_Start) (db_time env) (ID run) (store s) of
             Inl _ \<Rightarrow> s
           | Inr st \<Rightarrow>
               broadcastProgress env (clock_sched env) (ID run)
                 (scheduleNextMessage env
                    (s\<lparr>store := st,
                       worker := (worker s)\<lparr>currentRun :=
                         Some \<lparr>BatchID = ID run, DraftContent = Content draft,
                               CurrentJID = [], CurrentName = []\<rparr>\<rparr>\<rparr>)))
      | _ \<Rightarrow>
          s\<lparr>store := or_unchanged (store s)
                 (Fail (fails env DB_Fail) (db_time env) (ID run) ''Draft not found'' (store s))\<rparr>)"

definition checkQueue :: "Env \<Rightarrow> System \<Rightarrow> System" where
  "checkQueue env s =
     (if currentRun (worker s) \<noteq> None then s
      else (case GetNextQueued (fails env DB_GetNextQueued) (store s) of
              Inl _ \<Rightarrow> s
            | Inr None \<Rightarrow> s
            | Inr (Some queued) \<Rightarrow> startBatch env queued s))"

definition resumeIncompleteRuns :: "Env \<Rightarrow> System \<Rightarrow> System" where
  "resumeIncompleteRuns env s =
     (case GetActive (fails env DB_GetActive) (store s) of
        Inl _ \<Rightarrow> s
      | Inr (Some active) \<Rightarrow> startBatch env active s
      | Inr None \<Rightarrow> checkQueue env s)"

definition completeBatch :: "Env \<Rightarrow> int \<Rightarrow> System \<Rightarrow> System" where
  "completeBatch env batchID s =
     checkQueue env
       (broadcastEvent batchID
          (zero_event\<lparr>EvType := ''completed'', EvBatchID := batchID, EvStatus := ''completed''\<rparr>)
          (s\<lparr>store := or_unchanged (store s)
                  (Complete (fails env DB_Complete) (db_time env) batchID (store s)),
             worker := (worker s)\<lparr>currentRun := None\<rparr>\<rparr>))"

text \<open>The counters and the status string a send-outcome event carries: read back from the
  store, and left at zero when the read fails or finds nothing.\<close>

definition outcome_event :: "Env \<Rightarrow> string \<Rightarrow> int \<Rightarrow> MessageInfo \<Rightarrow> Store \<Rightarrow> ProgressEvent" where
  "outcome_event env kind batchID info st =
     (case BatchRun_GetByID (fails env DB_GetByID) batchID st of
        Inr (Some run) \<Rightarrow>
          zero_event\<lparr>EvType := kind, EvBatchID := batchID,
            EvStatus := status_string (Status run), EvTotalCount := TotalCount run,
            EvSentCount := SentCount run, EvFailedCount := FailedCount run,
            LastMessage := Some info\<rparr>
      | _ \<Rightarrow> zero_event\<lparr>EvType := kind, EvBatchID := batchID, LastMessage := Some info\<rparr>)"

definition markMessageSent :: "Env \<Rightarrow> int \<Rightarrow> BatchMessage \<Rightarrow> string \<Rightarrow> string \<Rightarrow> System \<Rightarrow> System" where
  "markMessageSent env batchID msg sentContent contactName s =
     (let st1 = or_unchanged (store s)
                  (MarkSent (fails env DB_MarkSent) (db_time env) (MsgID msg) sentContent (store s));
          st2 = or_unchanged st1 (IncrementSentCount (fails env DB_IncrementSentCount) batchID st1)
      in broadcastEvent batchID
           (outcome_event env ''message_sent'' batchID
              \<lparr>InfoJID = JID msg, InfoContactName = contactName, InfoSentContent = sentContent,
               InfoSentAt = clock_sched env, InfoStatus = ''sent'', InfoError = []\<rparr> st2)
           (s\<lparr>store := st2\<rparr>))"

definition markMessageFailed :: "Env \<Rightarrow> int \<Rightarrow> BatchMessage \<Rightarrow> string \<Rightarrow> System \<Rightarrow> System" where
  "markMessageFailed env batchID msg errorMessage s =
     (let st1 = or_unchanged (store s)
                  (MarkFailed (fails env DB_MarkFailed) (MsgID msg) errorMessage (store s));
          st2 = or_unchanged st1 (IncrementFailedCount (fails env DB_IncrementFailedCount) batchID st1);
          contactName = (case ContactName msg of Some n \<Rightarrow> n | None \<Rightarrow> [])
      in broadcastEvent batchID
           (outcome_event env ''message_failed'' batchID
              \<lparr>InfoJID = JID msg, InfoContactName = contactName, InfoSentContent = [],
               InfoSentAt = clock_sched env, InfoStatus = ''failed'', InfoError = errorMessage\<rparr> st2)
           (s\<lparr>store := st2\<rparr>))"

text \<open>
  \<open>sendMessage\<close>. The placeholder values come from the transport's contact book and the
  attribute table; only the error of the attribute query can make the lookup fail. The
  template package fills the template: its result is \<open>fill_placeholders env\<close> applied to
  the draft's text.
\<close>

definition sendMessage :: "Env \<Rightarrow> ActiveBatchState \<Rightarrow> BatchMessage \<Rightarrow> System \<Rightarrow> System" where
  "sendMessage env state msg s =
     (let contactName = (case ContactName msg of Some n \<Rightarrow> n | None \<Rightarrow> extractPhone (JID msg));
          s1 = s\<lparr>worker := (worker s)\<lparr>currentRun :=
                  Some (state\<lparr>CurrentJID := JID msg, CurrentName := contactName\<rparr>)\<rparr>\<rparr>;
          s2 = s1\<lparr>store := or_unchanged (store s1)
                  (MarkSending (fails env DB_MarkSending) (MsgID msg) (store s1))\<rparr>;
          s3 = broadcastProgress env (clock env) (BatchID state) s2
      in case attr_error env of
           Some err \<Rightarrow>
             scheduleNextMessage env
               (markMessageFailed env (BatchID state) msg
                  (''Failed to get placeholder values: '' @ err) s3)
         | None \<Rightarrow>
             (let sentContent = fill_placeholders env (DraftContent state);
                  s4 = s3\<lparr>transport_log := transport_log s3 @ [(MsgID msg, JID msg, sentContent)]\<rparr>
              in case send_error env of
                   Some err \<Rightarrow>
                     scheduleNextMessage env
                       (markMessageFailed env (BatchID state) msg (''Send failed: '' @ err) s4)
                 | None \<Rightarrow>
                     scheduleNextMessage env
                       (markMessageSent env (BatchID state) msg sentContent contactName s4)))"

definition processNextMessage :: "Env \<Rightarrow> System \<Rightarrow> System" where
  "processNextMessage env s =
     (case currentRun (worker s) of
        None \<Rightarrow> checkQueue env s
      | Some current \<Rightarrow>
          if clock env < nextSendAt (worker s)
          then broadcastProgress env (clock env) (BatchID current) s
          else if \<not> is_connected env
          then broadcastEvent (BatchID current)
                 (zero_event\<lparr>EvType := ''error'', EvBatchID := BatchID current,
                    EvErrorMessage := ''WhatsApp disconnected - waiting for reconnection''\<rparr>) s
          else (case GetNextPending (fails env DB_GetNextPending) (BatchID current) (store s) of
                  Inl _ \<Rightarrow> s
                | Inr None \<Rightarrow> completeBatch env (BatchID current) s
                | Inr (Some msg) \<Rightarrow> sendMessage env current msg s))"

text \<open>
  \<open>CancelBatch\<close> holds the worker's lock until it returns, so the broadcast and the
  queue check it starts with \<open>go\<close> run after it, as goroutines of their own.
\<close>

definition CancelBatch :: "Env \<Rightarrow> int \<Rightarrow> System \<Rightarrow> error option \<times> System" where
  "CancelBatch env batchID s =
     (let s1 = (case currentRun (worker s) of
                  None \<Rightarrow> s
                | Some c \<Rightarrow> if BatchID c = batchID
                            then s\<lparr>worker := (worker s)\<lparr>currentRun := None\<rparr>\<rparr> else s)
      in case Cancel (fails env DB_Cancel) (db_time env) batchID (store s1) of
           Inl err \<Rightarrow> (Some err, s1)
         | Inr st \<Rightarrow>
             (None, s1\<lparr>store := st,
                       goroutines := goroutines s1 @
                         [GoBroadcastEvent batchID
                            (zero_event\<lparr>EvType := ''cancelled'', EvBatchID := batchID,
                               EvStatus := ''cancelled''\<rparr>),
                          GoCheckQueue]\<rparr>))"

subsection \<open>Batch handler\<close>

text \<open>
  \<open>createBatch\<close>: the group repositories are outside the model, so the group's name and
  its members (recipient and the contact name found for it, if any) are arguments. A
  missing draft or an empty group is refused. The handler makes two store calls of its
  own, \<open>Create\<close> and \<open>CreateMultiple\<close>, and between them builds the messages, asking
  the transport for the name of each recipient. \<open>createBatch_begin\<close> goes up to the
  insert of the run and builds the messages, \<open>createBatch_finish\<close> inserts them and
  deletes the run again if that fails. \<open>createBatch\<close> is the request served with
  nothing else running in between.
\<close>

definition createBatch_begin ::
  "Env \<Rightarrow> int \<Rightarrow> int \<Rightarrow> string \<Rightarrow> (string \<times> string option) list \<Rightarrow> System \<Rightarrow>
     (int \<times> BatchMessage list \<times> System) option" where
  "createBatch_begin env draftID groupID groupName members s =
     (case Draft_GetByID (fails env DB_DraftGetByID) draftID (store s) of
        Inr (Some draft) \<Rightarrow>
          if members = [] then None
          else (case BatchRun_Create (fails env DB_Create) (db_time env)
                       \<lparr>ID = 0, DraftID = draftID, GroupID = groupID, GroupName = groupName,
                        DraftTitle = Title draft, Status = BatchStatusQueued,
                        TotalCount = int (length members), SentCount = 0, FailedCount = 0,
                        ErrorMessage = None, StartedAt = None, CompletedAt = None,
                        CreatedAt = 0\<rparr> (store s) of
                  Inl _ \<Rightarrow> None
                | Inr (runID, st1) \<Rightarrow>
                    Some (runID,
                          map (\<lambda>(jid, name).
                                 \<lparr>MsgID = 0, BatchRunID = runID, JID = jid, ContactName = name,
                                  MsgStatus = MessageStatusPending,
                                  TemplateContent = Content draft, SentContent = None,
                                  MsgErrorMessage = None, SentAt = None, MsgCreatedAt = 0\<rparr>)
                            members,
                          s\<lparr>store := st1\<rparr>))
      | _ \<Rightarrow> None)"

definition createBatch_finish :: "Env \<Rightarrow> int \<Rightarrow> BatchMessage list \<Rightarrow> System \<Rightarrow> System" where
  "createBatch_finish env runID messages s =
     (case CreateMultiple (fails env DB_CreateMultiple) (db_time env) messages (store s) of
        Inl _ \<Rightarrow>
          s\<lparr>store := (case BatchRun_Delete (fails env DB_Delete) runID (store s) of
                         Inl _ \<Rightarrow> store s
                       | Inr (_, st2) \<Rightarrow> st2)\<rparr>
      | Inr st2 \<Rightarrow> s\<lparr>store := st2\<rparr>)"

definition createBatch ::
  "Env \<Rightarrow> int \<Rightarrow> int \<Rightarrow> string \<Rightarrow> (string \<times> string option) list \<Rightarrow> System \<Rightarrow> System" where
  "createBatch env draftID groupID groupName members s =
     (case createBatch_begin env draftID groupID groupName members s of
        None \<Rightarrow> s
      | Some (runID, messages, s1) \<Rightarrow> createBatch_finish env runID messages s1)"

text \<open>The request served up to the insert of the run, its goroutine then waiting to insert
  the messages.\<close>

definition createBatch_start ::
  "Env \<Rightarrow> int \<Rightarrow> int \<Rightarrow> string \<Rightarrow> (string \<times> string option) list \<Rightarrow> System \<Rightarrow> System" where
  "createBatch_start env draftID groupID groupName members s =
     (case createBatch_begin env draftID groupID groupName members s of
        None \<Rightarrow> s
      | Some (runID, messages, s1) \<Rightarrow>
          s1\<lparr>goroutines := goroutines s1 @ [GoCreateBatch_insert runID messages]\<rparr>)"

definition cancelBatch :: "Env \<Rightarrow> int \<Rightarrow> System \<Rightarrow> System" where
  "cancelBatch env i s =
     (case BatchRun_GetByID (fails env DB_GetByID) i (store s) of
        Inr (Some batchRun) \<Rightarrow>
          if Status batchRun \<noteq> BatchStatusQueued \<and> Status batchRun \<noteq> BatchStatusRunning then s
          else snd (CancelBatch env i s)
      | _ \<Rightarrow> s)"

definition deleteBatch :: "Env \<Rightarrow> int \<Rightarrow> System \<Rightarrow> System" where
  "deleteBatch env i s =
     (case BatchRun_Delete (fails env DB_Delete) i (store s) of
        Inl _ \<Rightarrow> s
      | Inr (_, st) \<Rightarrow> s\<lparr>store := st\<rparr>)"

section \<open>The running system\<close>

text \<open>The zero \<open>time.Time\<close> (1 January of year 1), in nanoseconds from the Unix epoch.\<close>

definition zero_time :: timestamp where
  "zero_time = - 62135596800 * Second"

definition NewWorker :: Worker where
  "NewWorker = \<lparr>currentRun = None, nextSendAt = zero_time, subscribers = (\<lambda>_. []), chan_alloc = 0\<rparr>"

definition init_store :: Store where
  "init_store = \<lparr>batch_runs = [], batch_messages = [], message_drafts = [],
     next_run_id = 1, next_message_id = 1, next_draft_id = 1\<rparr>"

definition init_system :: System where
  "init_system = \<lparr>store = init_store, worker = NewWorker, goroutines = [], transport_log = []\<rparr>"

text \<open>One critical section of the goroutine at position \<open>i\<close> (nothing happens when there
  is none).\<close>

definition without :: "nat \<Rightarrow> 'a list \<Rightarrow> 'a list" where
  "without i xs = take i xs @ drop (Suc i) xs"

definition run_goroutine :: "Env \<Rightarrow> nat \<Rightarrow> System \<Rightarrow> System" where
  "run_goroutine env i s =
     (if length (goroutines s) \<le> i then s
      else (case goroutines s ! i of
              GoBroadcastEvent batchID event \<Rightarrow>
                broadcastEvent batchID event (s\<lparr>goroutines := without i (goroutines s)\<rparr>)
            | GoCheckQueue \<Rightarrow>
                if currentRun (worker s) \<noteq> None
                then s\<lparr>goroutines := without i (goroutines s)\<rparr>
                else s\<lparr>goroutines := (goroutines s)[i := GoCheckQueue_fetch]\<rparr>
            | GoCheckQueue_fetch \<Rightarrow>
                (case GetNextQueued (fails env DB_GetNextQueued) (store s) of
                   Inr (Some queued) \<Rightarrow> s\<lparr>goroutines := (goroutines s)[i := GoCheckQueue_start queued]\<rparr>
                 | _ \<Rightarrow> s\<lparr>goroutines := without i (goroutines s)\<rparr>)
            | GoCheckQueue_start queued \<Rightarrow>
                startBatch env queued (s\<lparr>goroutines := without i (goroutines s)\<rparr>)
            | GoCreateBatch_insert runID messages \<Rightarrow>
                createBatch_finish env runID messages (s\<lparr>goroutines := without i (goroutines s)\<rparr>)))"

text \<open>The goroutine at position \<open>i\<close> run from where it stands to its end, with nothing
  else running in between.\<close>

definition finish_goroutine :: "Env \<Rightarrow> nat \<Rightarrow> System \<Rightarrow> System" where
  "finish_goroutine env i s =
     (if length (goroutines s) \<le> i then s
      else (case goroutines s ! i of
              GoBroadcastEvent batchID event \<Rightarrow>
                broadcastEvent batchID event (s\<lparr>goroutines := without i (goroutines s)\<rparr>)
            | GoCheckQueue \<Rightarrow> checkQueue env (s\<lparr>goroutines := without i (goroutines s)\<rparr>)
            | GoCheckQueue_fetch \<Rightarrow>
                (case GetNextQueued (fails env DB_GetNextQueued) (store s) of
                   Inr (Some queued) \<Rightarrow>
                     startBatch env queued (s\<lparr>goroutines := without i (goroutines s)\<rparr>)
                 | _ \<Rightarrow> s\<lparr>goroutines := without i (goroutines s)\<rparr>)
            | GoCheckQueue_start queued \<Rightarrow>
                startBatch env queued (s\<lparr>goroutines := without i (goroutines s)\<rparr>)
            | GoCreateBatch_insert runID messages \<Rightarrow>
                createBatch_finish env runID messages (s\<lparr>goroutines := without i (goroutines s)\<rparr>)))"

text \<open>The process starts (again): the worker's memory is new, no goroutine of the old
  process is left, and \<open>Run\<close> calls \<open>resumeIncompleteRuns\<close> before its first tick.\<close>

definition restart :: "Env \<Rightarrow> System \<Rightarrow> System" where
  "restart env s = resumeIncompleteRuns env (s\<lparr>worker := NewWorker, goroutines := []\<rparr>)"

text \<open>A subscriber takes the oldest event out of its channel.\<close>

definition receive :: "int \<Rightarrow> nat \<Rightarrow> System \<Rightarrow> System" where
  "receive batchID c s =
     s\<lparr>worker := (worker s)\<lparr>subscribers :=
          (subscribers (worker s))(batchID :=
             map (\<lambda>ch. if chan_id ch = c then ch\<lparr>chan_buf := tl (chan_buf ch)\<rparr> else ch)
               (subscribers (worker s) batchID))\<rparr>\<rparr>"

subsection \<open>A tick, store call by store call\<close>

text \<open>
  What outlives the process: the store and what was handed to the transport. The trace of
  a dispatch lists these after each store call and each transport call that
  \<open>sendMessage\<close> makes, in the order it makes them: \<open>MarkSending\<close>; then, when the
  placeholders were found, the transport call; then \<open>MarkFailed\<close> and
  \<open>IncrementFailedCount\<close>, or \<open>MarkSent\<close> and \<open>IncrementSentCount\<close>.
\<close>

type_synonym outside = "Store \<times> (int \<times> string \<times> string) list"

definition outside_of :: "System \<Rightarrow> outside" where
  "outside_of s = (store s, transport_log s)"

definition markMessageFailed_trace :: "Env \<Rightarrow> int \<Rightarrow> BatchMessage \<Rightarrow> string \<Rightarrow> outside \<Rightarrow> outside list" where
  "markMessageFailed_trace env batchID msg errorMessage out =
     (let st1 = or_unchanged (fst out)
                  (MarkFailed (fails env DB_MarkFailed) (MsgID msg) errorMessage (fst out));
          st2 = or_unchanged st1 (IncrementFailedCount (fails env DB_IncrementFailedCount) batchID st1)
      in [(st1, snd out), (st2, snd out)])"

definition markMessageSent_trace :: "Env \<Rightarrow> int \<Rightarrow> BatchMessage \<Rightarrow> string \<Rightarrow> outside \<Rightarrow> outside list" where
  "markMessageSent_trace env batchID msg sentContent out =
     (let st1 = or_unchanged (fst out)
                  (MarkSent (fails env DB_MarkSent) (db_time env) (MsgID msg) sentContent (fst out));
          st2 = or_unchanged st1 (IncrementSentCount (fails env DB_IncrementSentCount) batchID st1)
      in [(st1, snd out), (st2, snd out)])"

definition sendMessage_trace :: "Env \<Rightarrow> ActiveBatchState \<Rightarrow> BatchMessage \<Rightarrow> outside \<Rightarrow> outside list" where
  "sendMessage_trace env state msg out =
     (let marked = (or_unchanged (fst out)
                      (MarkSending (fails env DB_MarkSending) (MsgID msg) (fst out)), snd out)
      in case attr_error env of
           Some err \<Rightarrow>
             [out, marked] @
             markMessageFailed_trace env (BatchID state) msg
               (''Failed to get placeholder values: '' @ err) marked
         | None \<Rightarrow>
             (let sentContent = fill_placeholders env (DraftContent state);
                  called = (fst marked, snd marked @ [(MsgID msg, JID msg, sentContent)])
              in case send_error env of
                   Some err \<Rightarrow>
                     [out, marked, called] @
                     markMessageFailed_trace env (BatchID state) msg (''Send failed: '' @ err) called
                 | None \<Rightarrow>
                     [out, marked, called] @
                     markMessageSent_trace env (BatchID state) msg sentContent called))"

text \<open>The trace of a tick: of the dispatch when the tick dispatches; the store after
  \<open>Complete\<close> and after the check of the queue when it completes the run; the store
  after the check of the queue when no run is active.\<close>

definition tick_trace :: "Env \<Rightarrow> System \<Rightarrow> outside list" where
  "tick_trace env s =
     (case currentRun (worker s) of
        None \<Rightarrow> [outside_of s, outside_of (checkQueue env s)]
      | Some current \<Rightarrow>
          if clock env < nextSendAt (worker s) \<or> \<not> is_connected env
          then [outside_of s]
          else (case GetNextPending (fails env DB_GetNextPending) (BatchID current) (store s) of
                  Inl _ \<Rightarrow> [outside_of s]
                | Inr None \<Rightarrow>
                    [outside_of s,
                     (or_unchanged (store s)
                        (Complete (fails env DB_Complete) (db_time env) (BatchID current) (store s)),
                      transport_log s),
                     outside_of (completeBatch env (BatchID current) s)]
                | Inr (Some msg) \<Rightarrow> sendMessage_trace env current msg (outside_of s)))"

text \<open>The process dies during a tick, when the tick has come to position \<open>k\<close> of its
  trace (to its end, if the trace is shorter), and is started again.\<close>

definition die_in_tick :: "Env \<Rightarrow> nat \<Rightarrow> Env \<Rightarrow> System \<Rightarrow> System" where
  "die_in_tick env k env' s =
     (let out = tick_trace env s ! min k (length (tick_trace env s) - 1)
      in restart env' (s\<lparr>store := fst out, transport_log := snd out\<rparr>))"

subsection \<open>Steps\<close>

text \<open>
  What can happen next: a tick of the worker's loop; a request to cancel a run; one
  critical section of a goroutine, or a goroutine run to its end; a draft created or
  deleted; a run created, the two store calls of the handler with nothing in between, or
  deleted; the start of the process; a subscriber that arrives, leaves or receives.
  \<open>CreateBatchStart\<close> is a creation up to the insert of the run: the insert of the
  messages is a later step of its goroutine, and is never made if the process starts
  again first. \<open>DieInTick\<close> is a tick during which the process dies, and the start
  that follows. Requests and goroutines are interleaved with ticks, not with the store
  calls inside one tick.
\<close>

datatype Event =
    Tick Env
  | CancelRequest Env int
  | GoStep Env nat
  | GoFinish Env nat
  | CreateDraft string string
  | DeleteDraft int
  | CreateBatch Env int int string "(string \<times> string option) list"
  | DeleteBatch Env int
  | Restart Env
  | SubscribeTo int
  | UnsubscribeFrom int nat
  | Receive int nat
  | CreateBatchStart Env int int string "(string \<times> string option) list"
  | DieInTick Env nat Env

fun step :: "Event \<Rightarrow> System \<Rightarrow> System" where
  "step (Tick env) s = processNextMessage env s"
| "step (CancelRequest env i) s = cancelBatch env i s"
| "step (GoStep env i) s = run_goroutine env i s"
| "step (GoFinish env i) s = finish_goroutine env i s"
| "step (CreateDraft title content) s = s\<lparr>store := Draft_Create title content (store s)\<rparr>"
| "step (DeleteDraft i) s = s\<lparr>store := or_unchanged (store s) (Draft_Delete i (store s))\<rparr>"
| "step (CreateBatch env draftID groupID groupName members) s =
     createBatch env draftID groupID groupName members s"
| "step (DeleteBatch env i) s = deleteBatch env i s"
| "step (Restart env) s = restart env s"
| "step (SubscribeTo batchID) s = snd (Subscribe batchID s)"
| "step (UnsubscribeFrom batchID c) s = Unsubscribe batchID c s"
| "step (Receive batchID c) s = receive batchID c s"
| "step (CreateBatchStart env draftID groupID groupName members) s =
     createBatch_start env draftID groupID groupName members s"
| "step (DieInTick env k env') s = die_in_tick env k env' s"

definition exec :: "Event list \<Rightarrow> System \<Rightarrow> System" where
  "exec evs s = foldl (\<lambda>s ev. step ev s) s evs"

section \<open>Vocabulary of the properties\<close>

definition terminal :: "BatchRunStatus \<Rightarrow> bool" where
  "terminal st = (st = BatchStatusCompleted \<or> st = BatchStatusCancelled \<or> st = BatchStatusFailed)"

definition cancelled_row :: "timestamp \<Rightarrow> BatchRun \<Rightarrow> BatchRun" where
  "cancelled_row ts r = r\<lparr>Status := BatchStatusCancelled, CompletedAt := Some ts\<rparr>"

subsection \<open>Sample inputs\<close>

text \<open>An environment at second \<open>t\<close> in which every store call succeeds, the transport is
  connected and every send succeeds.\<close>

definition fair_env :: "int \<Rightarrow> Env" where
  "fair_env t = \<lparr>fails = (\<lambda>_. False), clock = t * Second, clock_sched = t * Second,
     db_time = t, rand_int63 = 1234, is_connected = True, attr_error = None,
     fill_placeholders = id, send_error = None\<rparr>"

text \<open>One draft, one run to three recipients, the tick that starts it and three ticks
  that each dispatch one message.\<close>

definition three_sent :: "Event list" where
  "three_sent =
     [CreateDraft ''t'' ''hello'',
      CreateBatch (fair_env 1) 1 1 ''g'' [(''a@x'', None), (''b@x'', Some ''B''), (''c@x'', None)],
      Tick (fair_env 2), Tick (fair_env 20), Tick (fair_env 40), Tick (fair_env 60)]"

text \<open>The same run after the tick that finds nothing pending and completes it.\<close>

definition run_completed :: System where
  "run_completed = exec (three_sent @ [Tick (fair_env 80)]) init_system"

text \<open>The event \<open>processNextMessage\<close> broadcasts when the transport is not connected.\<close>

definition disconnected_event :: "int \<Rightarrow> ProgressEvent" where
  "disconnected_event batchID = zero_event\<lparr>EvType := ''error'', EvBatchID := batchID,
      EvErrorMessage := ''WhatsApp disconnected - waiting for reconnection''\<rparr>"

text \<open>The environment at second \<open>t\<close> with the transport disconnected.\<close>

definition offline_env :: "int \<Rightarrow> Env" where
  "offline_env t = (fair_env t)\<lparr>is_connected := False\<rparr>"

text \<open>A run to two recipients with one subscriber, just started.\<close>

definition watched_run :: System where
  "watched_run = exec [CreateDraft ''t'' ''hello'',
      CreateBatch (fair_env 1) 1 1 ''g'' [(''a@x'', None), (''b@x'', None)],
      SubscribeTo 1, Tick (fair_env 2)] init_system"

definition active_one :: ActiveBatchState where
  "active_one = \<lparr>BatchID = 1, DraftContent = ''hello'', CurrentJID = [], CurrentName = []\<rparr>"

text \<open>The same run after nine more ticks before the first deadline, each of which
  broadcasts a snapshot, and a second subscriber arriving then: the first channel is full,
  the second empty.\<close>

definition one_full_one_empty :: System where
  "one_full_one_empty = exec ([CreateDraft ''t'' ''hello'',
      CreateBatch (fair_env 1) 1 1 ''g'' [(''a@x'', None), (''b@x'', None)],
      SubscribeTo 1, Tick (fair_env 2)] @ map (\<lambda>t. Tick (fair_env t)) [3, 4, 5, 6, 7, 8, 9, 10, 11]
      @ [SubscribeTo 1]) init_system"




definition count_running :: "Store \<Rightarrow> nat" where
  "count_running st = length (filter (\<lambda>r. Status r = BatchStatusRunning) (batch_runs st))"

text \<open>An event during which no store call returns an error.\<close>

fun reliable_event :: "Event \<Rightarrow> bool" where
  "reliable_event (Tick env) = reliable env"
| "reliable_event (CancelRequest env i) = reliable env"
| "reliable_event (GoStep env i) = reliable env"
| "reliable_event (GoFinish env i) = reliable env"
| "reliable_event (CreateBatch env d g n ms) = reliable env"
| "reliable_event (DeleteBatch env i) = reliable env"
| "reliable_event (Restart env) = reliable env"
| "reliable_event (CreateBatchStart env d g n ms) = reliable env"
| "reliable_event (DieInTick env k env') = (reliable env \<and> reliable env')"
| "reliable_event _ = True"

text \<open>Three runs are created; the first is started and then cancelled. The goroutine
  that \<open>CancelBatch\<close> starts reads \<open>currentRun\<close> (nil); before it queries the store, a
  tick runs and starts the second run; the goroutine then finds the third run queued and
  starts it.\<close>

definition cancel_race :: "Event list" where
  "cancel_race =
     [CreateDraft ''t'' ''hello'',
      CreateBatch (fair_env 1) 1 1 ''g'' [(''a@x'', None)],
      CreateBatch (fair_env 2) 1 1 ''g'' [(''b@x'', None)],
      CreateBatch (fair_env 3) 1 1 ''g'' [(''c@x'', None)],
      Tick (fair_env 4),
      CancelRequest (fair_env 5) 1,
      GoStep (fair_env 5) 1,
      Tick (fair_env 5),
      GoStep (fair_env 5) 1,
      GoStep (fair_env 5) 1]"


text \<open>A run to three recipients at the moment the process dies, one message sent.\<close>

definition crashed_after_one :: System where
  "crashed_after_one = exec (take 4 three_sent) init_system"

text \<open>An environment in which only \<open>Complete\<close> returns an error, and a schedule where
  it does so on the tick that completes the first of two runs.\<close>

definition complete_fails_env :: "int \<Rightarrow> Env" where
  "complete_fails_env t = (fair_env t)\<lparr>fails := (\<lambda>c. c = DB_Complete)\<rparr>"

definition complete_error :: "Event list" where
  "complete_error =
     [CreateDraft ''t'' ''hello'',
      CreateBatch (fair_env 1) 1 1 ''g'' [(''a@x'', None)],
      CreateBatch (fair_env 2) 1 1 ''g'' [(''b@x'', None)],
      Tick (fair_env 4),
      Tick (fair_env 20),
      Tick (complete_fails_env 40)]"

text \<open>An environment in which the two writes of a message's status return an error, and
  a schedule in which the only message of a run is dispatched twice under it.\<close>

definition marks_fail_env :: "int \<Rightarrow> Env" where
  "marks_fail_env t = (fair_env t)\<lparr>fails := (\<lambda>c. c = DB_MarkSending \<or> c = DB_MarkSent)\<rparr>"

definition sent_twice :: "Event list" where
  "sent_twice =
     [CreateDraft ''t'' ''hello'',
      CreateBatch (fair_env 1) 1 1 ''g'' [(''a@x'', None)],
      Tick (fair_env 2),
      Tick (marks_fail_env 20),
      Tick (marks_fail_env 40)]"

subsection \<open>Moves of a message, traces of a step, invariants of the store\<close>

text \<open>A message whose dispatch is over.\<close>

definition settled :: "BatchMessage \<Rightarrow> bool" where
  "settled m = (MsgStatus m = MessageStatusSent \<or> MsgStatus m = MessageStatusFailed)"

text \<open>\<open>arrow a b\<close>: from status \<open>a\<close> to status \<open>b\<close> is one move along \<open>pending\<close> to
  \<open>sending\<close> to \<open>sent\<close> or \<open>failed\<close>. \<open>moves_forward a b\<close> also lets \<open>pending\<close> go to
  \<open>sent\<close> or \<open>failed\<close> at once, and like \<open>arrow\<close> has no move back, none to the same
  status and none out of \<open>sent\<close> or \<open>failed\<close>.\<close>

fun arrow :: "BatchMessageStatus \<Rightarrow> BatchMessageStatus \<Rightarrow> bool" where
  "arrow MessageStatusPending b = (b = MessageStatusSending)"
| "arrow MessageStatusSending b = (b = MessageStatusSent \<or> b = MessageStatusFailed)"
| "arrow MessageStatusSent b = False"
| "arrow MessageStatusFailed b = False"

fun moves_forward :: "BatchMessageStatus \<Rightarrow> BatchMessageStatus \<Rightarrow> bool" where
  "moves_forward MessageStatusPending b = (b \<noteq> MessageStatusPending)"
| "moves_forward MessageStatusSending b = (b = MessageStatusSent \<or> b = MessageStatusFailed)"
| "moves_forward MessageStatusSent b = False"
| "moves_forward MessageStatusFailed b = False"

text \<open>
  \<open>link R a b\<close> relates what is outside the process before and after one call. A message
  found in both stores (by its identifier) is the same row, field by field, or its status
  has made a move that \<open>R\<close> allows. The transport was handed nothing, or one message
  that the store before the call does not hold as \<open>sent\<close> or \<open>failed\<close>.
\<close>

definition link :: "(BatchMessageStatus \<Rightarrow> BatchMessageStatus \<Rightarrow> bool) \<Rightarrow> outside \<Rightarrow> outside \<Rightarrow> bool" where
  "link R a b =
     ((\<forall>m \<in> set (batch_messages (fst a)). \<forall>m' \<in> set (batch_messages (fst b)).
         MsgID m' = MsgID m \<longrightarrow> m' = m \<or> R (MsgStatus m) (MsgStatus m')) \<and>
      (snd b = snd a \<or>
       (\<exists>i jid content. snd b = snd a @ [(i, jid, content)] \<and>
          (\<forall>m \<in> set (batch_messages (fst a)). MsgID m = i \<longrightarrow> \<not> settled m))))"

text \<open>
  The trace of a step. A tick is traced call by call. A process that dies in a tick
  leaves the trace of the tick up to the position of its death, and then what the restart
  makes of it. Every other step is traced by its two ends: none of the repository
  functions it calls writes the status of a message.
\<close>

fun step_trace :: "Event \<Rightarrow> System \<Rightarrow> outside list" where
  "step_trace (Tick env) s = tick_trace env s"
| "step_trace (DieInTick env k env') s =
     take (Suc (min k (length (tick_trace env s) - 1))) (tick_trace env s) @
     [outside_of (die_in_tick env k env' s)]"
| "step_trace ev s = [outside_of s, outside_of (step ev s)]"

text \<open>Identifiers are primary keys handed out by the sequences.\<close>

definition ids_ok :: "Store \<Rightarrow> bool" where
  "ids_ok st =
     (distinct (map ID (batch_runs st)) \<and>
      (\<forall>r \<in> set (batch_runs st). ID r < next_run_id st) \<and>
      distinct (map MsgID (batch_messages st)) \<and>
      (\<forall>m \<in> set (batch_messages st). MsgID m < next_message_id st))"

text \<open>Every message is for a run whose identifier was handed out.\<close>

definition attached :: "Store \<Rightarrow> bool" where
  "attached st = (\<forall>m \<in> set (batch_messages st). BatchRunID m < next_run_id st)"

text \<open>The counters of a run against its messages: the run has at most \<open>total_count\<close>
  messages, and the two other counters together count at most those of them that are
  \<open>sent\<close> or \<open>failed\<close>.\<close>

definition tally_row :: "BatchMessage list \<Rightarrow> BatchRun \<Rightarrow> bool" where
  "tally_row msgs r =
     (int (length (filter (\<lambda>m. BatchRunID m = ID r) msgs)) \<le> TotalCount r \<and>
      SentCount r + FailedCount r \<le>
        int (length (filter (\<lambda>m. BatchRunID m = ID r \<and> settled m) msgs)))"

definition tally :: "Store \<Rightarrow> bool" where
  "tally st = (\<forall>r \<in> set (batch_runs st). tally_row (batch_messages st) r)"

text \<open>The creations under way: the run inserted and the messages to insert, for each
  goroutine between the two store calls of \<open>createBatch\<close>.\<close>

fun creations :: "Goroutine list \<Rightarrow> (int \<times> BatchMessage list) list" where
  "creations [] = []"
| "creations (GoCreateBatch_insert runID messages # gs) = (runID, messages) # creations gs"
| "creations (g # gs) = creations gs"

text \<open>A creation under way against the store: the identifier of its run was handed out,
  its messages are for that run, no message of that run is stored yet, and the run, if it
  is still there, has a \<open>total_count\<close> that the messages do not exceed.\<close>

definition awaited :: "Store \<Rightarrow> int \<times> BatchMessage list \<Rightarrow> bool" where
  "awaited st p =
     (fst p < next_run_id st \<and>
      (\<forall>m \<in> set (snd p). BatchRunID m = fst p) \<and>
      (\<forall>m \<in> set (batch_messages st). BatchRunID m \<noteq> fst p) \<and>
      (\<forall>r \<in> set (batch_runs st). ID r = fst p \<longrightarrow> int (length (snd p)) \<le> TotalCount r))"

definition sound :: "(int \<times> BatchMessage list) list \<Rightarrow> Store \<Rightarrow> bool" where
  "sound ps st =
     (ids_ok st \<and> attached st \<and> tally st \<and> distinct (map fst ps) \<and> list_all (awaited st) ps)"

text \<open>A row of a run rewritten in its status, its time stamps and its error message
  only.\<close>

definition restatus :: "BatchRun \<Rightarrow> BatchRun \<Rightarrow> bool" where
  "restatus r r' =
     (ID r' = ID r \<and> TotalCount r' = TotalCount r \<and> SentCount r' = SentCount r \<and>
      FailedCount r' = FailedCount r)"

definition frame :: "Store \<Rightarrow> Store \<Rightarrow> bool" where
  "frame st st' =
     (batch_messages st' = batch_messages st \<and> next_run_id st' = next_run_id st \<and>
      next_message_id st' = next_message_id st \<and>
      list_all2 restatus (batch_runs st) (batch_runs st'))"

text \<open>A run that was inserted while its messages were not yet, and was started and
  completed in between: one draft, the first store call of a creation for two recipients,
  the tick that starts the run, the due tick that finds no pending message, and then the
  second store call of the creation.\<close>

definition completed_before_insert :: "Event list" where
  "completed_before_insert =
     [CreateDraft ''t'' ''hello'',
      CreateBatchStart (fair_env 1) 1 1 ''g'' [(''a@x'', None), (''b@x'', None)],
      Tick (fair_env 2),
      Tick (fair_env 20),
      GoStep (fair_env 21) 0]"

text \<open>A process that dies in a dispatch after the write of the message's status and
  before the increment of the counter, and the run resumed and completed after it.\<close>

definition died_before_increment :: "Event list" where
  "died_before_increment =
     [CreateDraft ''t'' ''hello'',
      CreateBatch (fair_env 1) 1 1 ''g'' [(''a@x'', None)],
      Tick (fair_env 2),
      DieInTick (fair_env 20) 3 (fair_env 30),
      Tick (fair_env 50)]"

section \<open>Auxiliary lemmas\<close>

lemma update_rows_same: "(\<And>r. r \<in> set rows \<Longrightarrow> \<not> P r) \<Longrightarrow> update_rows P f rows = rows"
  by (induction rows) (auto simp: update_rows_def)

lemma update_rows_nth:
  "k < length rows \<Longrightarrow> update_rows P f rows ! k = (if P (rows ! k) then f (rows ! k) else rows ! k)"
  by (simp add: update_rows_def)

lemma length_update_rows [simp]: "length (update_rows P f rows) = length rows"
  by (simp add: update_rows_def)

lemma CancelBatch_store:
  "store (snd (CancelBatch env i s)) =
     or_unchanged (store s) (Cancel (fails env DB_Cancel) (db_time env) i (store s))"
  by (auto simp: CancelBatch_def Let_def Cancel_def or_unchanged_def split: option.splits)

lemma next_delay_bounds: "10 * Second \<le> next_delay env \<and> next_delay env < 15 * Second"
proof -
  have "0 \<le> int (rand_int63 env) mod 5000" "int (rand_int63 env) mod 5000 < 5000"
    by simp_all
  then show ?thesis
    by (simp add: next_delay_def Int63n_def Second_def Millisecond_def Let_def)
qed

lemma nextSendAt_markMessageFailed [simp]:
  "nextSendAt (worker (markMessageFailed env b msg e s)) = nextSendAt (worker s)"
  by (simp add: markMessageFailed_def Let_def broadcastEvent_def)

lemma broadcastEvent_frame [simp]:
  "store (broadcastEvent i ev s) = store s"
  "goroutines (broadcastEvent i ev s) = goroutines s"
  "transport_log (broadcastEvent i ev s) = transport_log s"
  "currentRun (worker (broadcastEvent i ev s)) = currentRun (worker s)"
  "nextSendAt (worker (broadcastEvent i ev s)) = nextSendAt (worker s)"
  "chan_alloc (worker (broadcastEvent i ev s)) = chan_alloc (worker s)"
  by (simp_all add: broadcastEvent_def)

lemma exec_Nil [simp]: "exec [] s = s"
  by (simp add: exec_def)

lemma exec_Cons [simp]: "exec (ev # evs) s = exec evs (step ev s)"
  by (simp add: exec_def)

lemma exec_append: "exec (evs @ evs') s = exec evs' (exec evs s)"
  by (simp add: exec_def)

lemma disconnected_tick:
  "currentRun (worker s) = Some current \<Longrightarrow> nextSendAt (worker s) \<le> clock env \<Longrightarrow>
   \<not> is_connected env \<Longrightarrow>
   processNextMessage env s =
     broadcastEvent (BatchID current) (disconnected_event (BatchID current)) s"
  by (simp add: processNextMessage_def disconnected_event_def)

lemma funpow_broadcast_frame:
  "store (((broadcastEvent i ev) ^^ n) s) = store s \<and>
   currentRun (worker (((broadcastEvent i ev) ^^ n) s)) = currentRun (worker s) \<and>
   nextSendAt (worker (((broadcastEvent i ev) ^^ n) s)) = nextSendAt (worker s) \<and>
   transport_log (((broadcastEvent i ev) ^^ n) s) = transport_log s \<and>
   goroutines (((broadcastEvent i ev) ^^ n) s) = goroutines s"
  by (induction n) simp_all

lemma disconnected_ticks:
  "currentRun (worker s) = Some current \<Longrightarrow>
   list_all (\<lambda>env. nextSendAt (worker s) \<le> clock env \<and> \<not> is_connected env) envs \<Longrightarrow>
   exec (map Tick envs) s =
     ((broadcastEvent (BatchID current) (disconnected_event (BatchID current))) ^^ length envs) s"
proof (induction envs arbitrary: s)
  case Nil
  then show ?case by simp
next
  case (Cons env envs)
  let ?b = "broadcastEvent (BatchID current) (disconnected_event (BatchID current))"
  from Cons.prems have t: "processNextMessage env s = ?b s"
    by (simp add: disconnected_tick)
  have "exec (map Tick envs) (?b s) = (?b ^^ length envs) (?b s)"
    using Cons.prems by (intro Cons.IH) simp_all
  then show ?case
    by (simp add: t funpow_swap1)
qed

lemma oldest_mem: "oldest key xs = Some x \<Longrightarrow> x \<in> set xs"
  by (induction xs arbitrary: x) (auto split: option.splits if_splits)

lemma oldest_None: "oldest key xs = None \<longleftrightarrow> xs = []"
  by (cases xs) (auto split: option.splits)

lemma reliableD:
  "reliable env \<Longrightarrow> \<not> fails env c"
  by (cases c) (simp_all add: reliable_def all_db_calls_def)

lemma broadcastProgress_frame [simp]:
  "store (broadcastProgress env now i s) = store s"
  "goroutines (broadcastProgress env now i s) = goroutines s"
  "transport_log (broadcastProgress env now i s) = transport_log s"
  "currentRun (worker (broadcastProgress env now i s)) = currentRun (worker s)"
  "nextSendAt (worker (broadcastProgress env now i s)) = nextSendAt (worker s)"
  by (simp_all add: broadcastProgress_def split: sum.splits)

lemma scheduleNextMessage_frame [simp]:
  "store (scheduleNextMessage env s) = store s"
  "goroutines (scheduleNextMessage env s) = goroutines s"
  "transport_log (scheduleNextMessage env s) = transport_log s"
  "currentRun (worker (scheduleNextMessage env s)) = currentRun (worker s)"
  "subscribers (worker (scheduleNextMessage env s)) = subscribers (worker s)"
  "nextSendAt (worker (scheduleNextMessage env s)) = clock_sched env + next_delay env"
  by (simp_all add: scheduleNextMessage_def)

lemma startBatch_started:
  assumes "reliable env"
    and "find (\<lambda>d. DraftRowID d = DraftID run) (message_drafts (store s)) = Some draft"
  shows "currentRun (worker (startBatch env run s)) =
           Some \<lparr>BatchID = ID run, DraftContent = Content draft, CurrentJID = [], CurrentName = []\<rparr>"
    and "nextSendAt (worker (startBatch env run s)) = clock_sched env + next_delay env"
    and "store (startBatch env run s) =
           (store s)\<lparr>batch_runs := update_rows (\<lambda>r. ID r = ID run)
              (\<lambda>r. r\<lparr>Status := BatchStatusRunning, StartedAt := Some (db_time env)\<rparr>)
              (batch_runs (store s))\<rparr>"
    and "transport_log (startBatch env run s) = transport_log s"
    and "goroutines (startBatch env run s) = goroutines s"
  using assms
  by (simp_all add: startBatch_def Draft_GetByID_def Start_def reliableD)



subsection \<open>Stores that differ in the status of runs\<close>

lemma restatus_refl [simp]: "restatus r r"
  by (simp add: restatus_def)

lemma frame_refl [simp]: "frame st st"
  by (simp add: frame_def list.rel_refl)

lemma frame_trans:
  assumes "frame st st1" "frame st1 st2"
  shows "frame st st2"
proof -
  have "list_all2 restatus (batch_runs st) (batch_runs st2)"
  proof (rule list_all2_trans)
    show "restatus a b \<Longrightarrow> restatus b c \<Longrightarrow> restatus a c" for a b c
      by (simp add: restatus_def)
    show "list_all2 restatus (batch_runs st) (batch_runs st1)"
      using assms(1) by (simp add: frame_def)
    show "list_all2 restatus (batch_runs st1) (batch_runs st2)"
      using assms(2) by (simp add: frame_def)
  qed
  with assms show ?thesis by (simp add: frame_def)
qed

lemma frame_update_rows:
  assumes "\<And>r. P r \<Longrightarrow> restatus r (f r)"
  shows "frame st (st\<lparr>batch_runs := update_rows P f (batch_runs st)\<rparr>)"
  unfolding frame_def update_rows_def
  using assms by (auto simp: list_all2_map2 intro!: list.rel_refl_strong)

lemma frame_Start: "frame st (or_unchanged st (Start fl ts i st))"
  by (auto simp: Start_def or_unchanged_def restatus_def intro!: frame_update_rows)

lemma frame_Fail: "frame st (or_unchanged st (Fail fl ts i e st))"
  by (auto simp: Fail_def or_unchanged_def restatus_def intro!: frame_update_rows)

lemma frame_Cancel: "frame st (or_unchanged st (Cancel fl ts i st))"
  by (auto simp: Cancel_def or_unchanged_def restatus_def intro!: frame_update_rows)

lemma frame_Complete: "frame st (or_unchanged st (Complete fl ts i st))"
  by (auto simp: Complete_def or_unchanged_def restatus_def intro!: frame_update_rows)

lemma store_startBatch:
  "store (startBatch env run s) = store s \<or>
   store (startBatch env run s) = or_unchanged (store s) (Start (fails env DB_Start) (db_time env) (ID run) (store s)) \<or>
   store (startBatch env run s) = or_unchanged (store s) (Fail (fails env DB_Fail) (db_time env) (ID run) ''Draft not found'' (store s))"
  by (auto simp: startBatch_def or_unchanged_def split: sum.splits option.splits)

lemma frame_startBatch: "frame (store s) (store (startBatch env run s))"
  using store_startBatch [of env run s] frame_Start frame_Fail frame_refl
  by metis

lemma frame_checkQueue: "frame (store s) (store (checkQueue env s))"
  by (auto simp: checkQueue_def frame_startBatch split: sum.splits option.splits)

lemma frame_resume: "frame (store s) (store (resumeIncompleteRuns env s))"
  by (auto simp: resumeIncompleteRuns_def frame_startBatch frame_checkQueue split: sum.splits option.splits)

lemma frame_restart: "frame (store s) (store (restart env s))"
  using frame_resume [of "s\<lparr>worker := NewWorker, goroutines := []\<rparr>" env]
  by (simp add: restart_def)

lemma frame_completeBatch: "frame (store s) (store (completeBatch env i s))"
proof -
  let ?s1 = "broadcastEvent i
          (zero_event\<lparr>EvType := ''completed'', EvBatchID := i, EvStatus := ''completed''\<rparr>)
          (s\<lparr>store := or_unchanged (store s)
                  (Complete (fails env DB_Complete) (db_time env) i (store s)),
             worker := (worker s)\<lparr>currentRun := None\<rparr>\<rparr>)"
  have "frame (store s) (store ?s1)"
    by (simp add: frame_Complete)
  moreover have "frame (store ?s1) (store (checkQueue env ?s1))"
    by (rule frame_checkQueue)
  ultimately show ?thesis
    unfolding completeBatch_def by (rule frame_trans)
qed

lemma frame_CancelBatch: "frame (store s) (store (snd (CancelBatch env i s)))"
  by (simp add: CancelBatch_store frame_Cancel)

lemma frame_cancelBatch: "frame (store s) (store (cancelBatch env i s))"
  by (auto simp: cancelBatch_def frame_CancelBatch split: sum.splits option.splits)

lemma frame_runs:
  assumes "frame st st'" "r' \<in> set (batch_runs st')"
  obtains r where "r \<in> set (batch_runs st)" "restatus r r'"
proof -
  from assms(1) have l: "list_all2 restatus (batch_runs st) (batch_runs st')"
    by (simp add: frame_def)
  from assms(2) obtain k where k: "k < length (batch_runs st')" "batch_runs st' ! k = r'"
    by (auto simp: in_set_conv_nth)
  from list_all2_nthD2 [OF l k(1)] k(2) have "restatus (batch_runs st ! k) r'"
    by simp
  moreover from l k(1) have "batch_runs st ! k \<in> set (batch_runs st)"
    by (simp add: list_all2_lengthD)
  ultimately show ?thesis by (rule that [rotated])
qed

lemma frame_ids_ok:
  assumes "frame st st'" "ids_ok st"
  shows "ids_ok st'"
proof -
  from assms(1) have l: "list_all2 restatus (batch_runs st) (batch_runs st')"
    by (simp add: frame_def)
  then have "list_all2 (\<lambda>r r'. ID r = ID r') (batch_runs st) (batch_runs st')"
    by (rule list_all2_mono) (simp add: restatus_def)
  then have m: "map ID (batch_runs st) = map ID (batch_runs st')"
    by (simp add: list.rel_map list.rel_eq [symmetric])
  have b: "ID r < next_run_id st" if "r \<in> set (batch_runs st')" for r
  proof -
    from frame_runs [OF assms(1) that] obtain r0 where "r0 \<in> set (batch_runs st)" "restatus r0 r" .
    with assms(2) show ?thesis by (auto simp: ids_ok_def restatus_def)
  qed
  from assms m b show ?thesis
    unfolding ids_ok_def frame_def by auto
qed





subsection \<open>Rewriting one message\<close>

lemma mem_update_rows:
  "x' \<in> set (update_rows P f xs) \<Longrightarrow> (x' \<in> set xs \<and> \<not> P x') \<or> (\<exists>x \<in> set xs. P x \<and> x' = f x)"
  by (auto simp: update_rows_def split: if_splits)

lemma update_rows_mem: "x \<in> set xs \<Longrightarrow> P x \<Longrightarrow> f x \<in> set (update_rows P f xs)"
  by (auto simp: update_rows_def)

lemma map_update_rows: "(\<And>x. k (f x) = k x) \<Longrightarrow> map k (update_rows P f xs) = map k xs"
  by (simp add: update_rows_def)

lemma same_id_same_message:
  assumes "distinct (map MsgID ms)" "m \<in> set ms" "m' \<in> set ms" "MsgID m' = MsgID m"
  shows "m' = m"
proof -
  from assms(1) have "inj_on MsgID (set ms)"
    by (simp add: distinct_map)
  from inj_onD [OF this assms(4) assms(3) assms(2)] show ?thesis .
qed




text \<open>A rewrite of messages that keeps the two identifiers of each.\<close>

lemma ids_ok_rewrite:
  assumes "ids_ok st" and g: "\<And>m. MsgID (g m) = MsgID m"
  shows "ids_ok (st\<lparr>batch_messages := update_rows P g (batch_messages st)\<rparr>)"
proof -
  let ?ms' = "update_rows P g (batch_messages st)"
  have a: "map MsgID ?ms' = map MsgID (batch_messages st)"
    by (rule map_update_rows) (rule g)
  have b: "MsgID m' < next_message_id st" if "m' \<in> set ?ms'" for m'
    using mem_update_rows [OF that] assms(1) g by (auto simp: ids_ok_def)
  from assms(1) a b show ?thesis
    by (simp add: ids_ok_def)
qed

lemma ids_ok_recount:
  assumes "ids_ok st" and h: "\<And>r. ID (h r) = ID r"
  shows "ids_ok (st\<lparr>batch_runs := update_rows P h (batch_runs st)\<rparr>)"
proof -
  let ?rs' = "update_rows P h (batch_runs st)"
  have a: "map ID ?rs' = map ID (batch_runs st)"
    by (rule map_update_rows) (rule h)
  have b: "ID r' < next_run_id st" if "r' \<in> set ?rs'" for r'
    using mem_update_rows [OF that] assms(1) h by (auto simp: ids_ok_def)
  from assms(1) a b show ?thesis
    by (simp add: ids_ok_def)
qed

lemma ids_ok_MarkSending: "ids_ok st \<Longrightarrow> ids_ok (or_unchanged st (MarkSending fl i st))"
  by (simp add: MarkSending_def or_unchanged_def ids_ok_rewrite)

lemma ids_ok_MarkSent: "ids_ok st \<Longrightarrow> ids_ok (or_unchanged st (MarkSent fl ts i c st))"
  by (simp add: MarkSent_def or_unchanged_def ids_ok_rewrite)

lemma ids_ok_MarkFailed: "ids_ok st \<Longrightarrow> ids_ok (or_unchanged st (MarkFailed fl i e st))"
  by (simp add: MarkFailed_def or_unchanged_def ids_ok_rewrite)

lemma ids_ok_IncrementSentCount: "ids_ok st \<Longrightarrow> ids_ok (or_unchanged st (IncrementSentCount fl b st))"
  by (simp add: IncrementSentCount_def or_unchanged_def ids_ok_recount)

lemma ids_ok_IncrementFailedCount: "ids_ok st \<Longrightarrow> ids_ok (or_unchanged st (IncrementFailedCount fl b st))"
  by (simp add: IncrementFailedCount_def or_unchanged_def ids_ok_recount)



subsection \<open>The trace of a dispatch\<close>

lemma GetNextPending_Some:
  "GetNextPending fl b st = Inr (Some msg) \<Longrightarrow>
   msg \<in> set (batch_messages st) \<and> MsgStatus msg = MessageStatusPending \<and> BatchRunID msg = b"
  using oldest_mem [of MsgCreatedAt "filter (\<lambda>m. BatchRunID m = b \<and> MsgStatus m = MessageStatusPending) (batch_messages st)" msg]
  by (auto simp: GetNextPending_def split: if_splits)

lemma arrow_moves_forward: "arrow a b \<Longrightarrow> moves_forward a b"
  by (cases a) auto

lemma link_mono: "link R a b \<Longrightarrow> (\<And>x y. R x y \<Longrightarrow> Q x y) \<Longrightarrow> link Q a b"
  unfolding link_def by blast

lemma link_same_messages:
  assumes "distinct (map MsgID (batch_messages st))" "batch_messages st' = batch_messages st"
  shows "link R (st, l) (st', l)"
  using assms same_id_same_message [OF assms(1)]
  by (auto simp: link_def)

lemma link_rewrite:
  assumes d: "distinct (map MsgID (batch_messages st))"
    and u: "batch_messages st' = update_rows (\<lambda>m. MsgID m = i) g (batch_messages st)"
    and g: "\<And>m. MsgID (g m) = MsgID m"
    and r: "\<And>m. m \<in> set (batch_messages st) \<Longrightarrow> MsgID m = i \<Longrightarrow> R (MsgStatus m) (MsgStatus (g m))"
  shows "link R (st, l) (st', l)"
proof -
  have "m' = m \<or> R (MsgStatus m) (MsgStatus m')"
    if m: "m \<in> set (batch_messages st)" and m': "m' \<in> set (batch_messages st')" and e: "MsgID m' = MsgID m"
    for m m'
  proof -
    from m' u have "m' \<in> set (update_rows (\<lambda>m. MsgID m = i) g (batch_messages st))"
      by simp
    from mem_update_rows [OF this] consider "m' \<in> set (batch_messages st)"
      | x where "x \<in> set (batch_messages st)" "MsgID x = i" "m' = g x"
      by auto
    then show ?thesis
    proof cases
      case 1
      from same_id_same_message [OF d m 1 e] show ?thesis by simp
    next
      case 2
      from 2(3) e g have "MsgID x = MsgID m" by simp
      from same_id_same_message [OF d m 2(1) this] have "x = m" .
      with 2 r [of m] m show ?thesis by simp
    qed
  qed
  then show ?thesis
    by (simp add: link_def)
qed

lemma link_called:
  assumes "distinct (map MsgID (batch_messages st))" "m \<in> set (batch_messages st)" "\<not> settled m"
    and "i = MsgID m"
  shows "link R (st, l) (st, l @ [(i, j, c)])"
proof -
  have "\<forall>m \<in> set (batch_messages st). \<forall>m' \<in> set (batch_messages st). MsgID m' = MsgID m \<longrightarrow> m' = m"
    using same_id_same_message [OF assms(1)] by blast
  moreover have "\<not> settled m'" if "m' \<in> set (batch_messages st)" "MsgID m' = i" for m'
    using same_id_same_message [OF assms(1,2) that(1)] that(2) assms(3,4) by auto
  ultimately show ?thesis
    by (simp add: link_def)
qed

lemma markMessageFailed_trace_links:
  assumes "ids_ok st"
    and "\<And>m. m \<in> set (batch_messages st) \<Longrightarrow> MsgID m = MsgID msg \<Longrightarrow> R (MsgStatus m) MessageStatusFailed"
  shows "successively (link R) ((st, l) # markMessageFailed_trace env b msg e (st, l))"
proof -
  let ?st1 = "or_unchanged st (MarkFailed (fails env DB_MarkFailed) (MsgID msg) e st)"
  let ?st2 = "or_unchanged ?st1 (IncrementFailedCount (fails env DB_IncrementFailedCount) b ?st1)"
  from assms(1) have d: "distinct (map MsgID (batch_messages st))"
    by (simp add: ids_ok_def)
  have a: "link R (st, l) (?st1, l)"
  proof (cases "fails env DB_MarkFailed")
    case True
    then show ?thesis
      using link_same_messages [OF d refl] by (simp add: MarkFailed_def or_unchanged_def)
  next
    case False
    show ?thesis
    proof (rule link_rewrite [OF d])
      show "batch_messages ?st1 = update_rows (\<lambda>m. MsgID m = MsgID msg)
              (\<lambda>m. m\<lparr>MsgStatus := MessageStatusFailed, MsgErrorMessage := Some e\<rparr>) (batch_messages st)"
        using False by (simp add: MarkFailed_def or_unchanged_def)
    qed (simp_all add: assms(2))
  qed
  from ids_ok_MarkFailed [OF assms(1)] have "distinct (map MsgID (batch_messages ?st1))"
    by (simp add: ids_ok_def)
  moreover have "batch_messages ?st2 = batch_messages ?st1"
    by (simp add: IncrementFailedCount_def or_unchanged_def)
  ultimately have "link R (?st1, l) (?st2, l)"
    by (rule link_same_messages)
  with a show ?thesis
    by (simp add: markMessageFailed_trace_def Let_def)
qed

lemma markMessageSent_trace_links:
  assumes "ids_ok st"
    and "\<And>m. m \<in> set (batch_messages st) \<Longrightarrow> MsgID m = MsgID msg \<Longrightarrow> R (MsgStatus m) MessageStatusSent"
  shows "successively (link R) ((st, l) # markMessageSent_trace env b msg c (st, l))"
proof -
  let ?st1 = "or_unchanged st (MarkSent (fails env DB_MarkSent) (db_time env) (MsgID msg) c st)"
  let ?st2 = "or_unchanged ?st1 (IncrementSentCount (fails env DB_IncrementSentCount) b ?st1)"
  from assms(1) have d: "distinct (map MsgID (batch_messages st))"
    by (simp add: ids_ok_def)
  have a: "link R (st, l) (?st1, l)"
  proof (cases "fails env DB_MarkSent")
    case True
    then show ?thesis
      using link_same_messages [OF d refl] by (simp add: MarkSent_def or_unchanged_def)
  next
    case False
    show ?thesis
    proof (rule link_rewrite [OF d])
      show "batch_messages ?st1 = update_rows (\<lambda>m. MsgID m = MsgID msg)
              (\<lambda>m. m\<lparr>MsgStatus := MessageStatusSent, SentContent := Some c, SentAt := Some (db_time env)\<rparr>)
              (batch_messages st)"
        using False by (simp add: MarkSent_def or_unchanged_def)
    qed (simp_all add: assms(2))
  qed
  from ids_ok_MarkSent [OF assms(1)] have "distinct (map MsgID (batch_messages ?st1))"
    by (simp add: ids_ok_def)
  moreover have "batch_messages ?st2 = batch_messages ?st1"
    by (simp add: IncrementSentCount_def or_unchanged_def)
  ultimately have "link R (?st1, l) (?st2, l)"
    by (rule link_same_messages)
  with a show ?thesis
    by (simp add: markMessageSent_trace_def Let_def)
qed

text \<open>After \<open>MarkSending\<close>, answered or not, the message is in the store and is not yet
  \<open>sent\<close> or \<open>failed\<close>; it is \<open>sending\<close> when the call was answered.\<close>

lemma after_MarkSending:
  fixes fl :: bool
  assumes i: "ids_ok st" and msg: "msg \<in> set (batch_messages st)" "MsgStatus msg = MessageStatusPending"
  defines "st1 \<equiv> or_unchanged st (MarkSending fl (MsgID msg) st)"
  shows "ids_ok st1"
    and "link arrow (st, l) (st1, l)"
    and "\<exists>m \<in> set (batch_messages st1). \<not> settled m \<and> MsgID m = MsgID msg"
    and "\<And>m. m \<in> set (batch_messages st1) \<Longrightarrow> MsgID m = MsgID msg \<Longrightarrow>
           MsgStatus m = MessageStatusSending \<or> (fl \<and> MsgStatus m = MessageStatusPending)"
proof -
  from i have d: "distinct (map MsgID (batch_messages st))"
    by (simp add: ids_ok_def)
  show "ids_ok st1"
    unfolding st1_def by (rule ids_ok_MarkSending [OF i])
  have only: "m = msg" if "m \<in> set (batch_messages st)" "MsgID m = MsgID msg" for m
    using same_id_same_message [OF d msg(1) that(1) that(2)] .
  show "link arrow (st, l) (st1, l)"
  proof (cases fl)
    case True
    then show ?thesis
      using link_same_messages [OF d refl] by (simp add: st1_def MarkSending_def or_unchanged_def)
  next
    case False
    show ?thesis
    proof (rule link_rewrite [OF d])
      show "batch_messages st1 = update_rows (\<lambda>m. MsgID m = MsgID msg)
              (\<lambda>m. m\<lparr>MsgStatus := MessageStatusSending\<rparr>) (batch_messages st)"
        using False by (simp add: st1_def MarkSending_def or_unchanged_def)
      show "arrow (MsgStatus m) (MsgStatus (m\<lparr>MsgStatus := MessageStatusSending\<rparr>))"
        if "m \<in> set (batch_messages st)" "MsgID m = MsgID msg" for m
        using only [OF that] msg(2) by simp
    qed simp
  qed
  show "\<exists>m \<in> set (batch_messages st1). \<not> settled m \<and> MsgID m = MsgID msg"
  proof (cases fl)
    case True
    with msg have "msg \<in> set (batch_messages st1)" "\<not> settled msg"
      by (simp_all add: st1_def MarkSending_def or_unchanged_def settled_def)
    then show ?thesis by blast
  next
    case False
    have "msg\<lparr>MsgStatus := MessageStatusSending\<rparr> \<in> set (update_rows (\<lambda>m. MsgID m = MsgID msg)
              (\<lambda>m. m\<lparr>MsgStatus := MessageStatusSending\<rparr>) (batch_messages st))"
      by (rule update_rows_mem [OF msg(1)]) simp
    with False have "msg\<lparr>MsgStatus := MessageStatusSending\<rparr> \<in> set (batch_messages st1)"
      by (simp add: st1_def MarkSending_def or_unchanged_def)
    then show ?thesis
      by (rule bexI [rotated]) (simp add: settled_def)
  qed
  show "MsgStatus m = MessageStatusSending \<or> (fl \<and> MsgStatus m = MessageStatusPending)"
    if m: "m \<in> set (batch_messages st1)" "MsgID m = MsgID msg" for m
  proof (cases fl)
    case True
    with m have "m \<in> set (batch_messages st)"
      by (simp add: st1_def MarkSending_def or_unchanged_def)
    from only [OF this m(2)] msg(2) True show ?thesis by simp
  next
    case False
    with m(1) have "m \<in> set (update_rows (\<lambda>m. MsgID m = MsgID msg)
              (\<lambda>m. m\<lparr>MsgStatus := MessageStatusSending\<rparr>) (batch_messages st))"
      by (simp add: st1_def MarkSending_def or_unchanged_def)
    from mem_update_rows [OF this] m(2) show ?thesis by auto
  qed
qed

lemma sendMessage_trace_links:
  assumes i: "ids_ok st" and msg: "msg \<in> set (batch_messages st)" "MsgStatus msg = MessageStatusPending"
  shows "successively (link moves_forward) (sendMessage_trace env state msg (st, l))"
    and "\<not> fails env DB_MarkSending \<Longrightarrow> successively (link arrow) (sendMessage_trace env state msg (st, l))"
proof -
  define st1 where "st1 = or_unchanged st (MarkSending (fails env DB_MarkSending) (MsgID msg) st)"
  note a = after_MarkSending [OF i msg, where fl = "fails env DB_MarkSending", folded st1_def]
  from a(1) have d1: "distinct (map MsgID (batch_messages st1))"
    by (simp add: ids_ok_def)
  from a(3) obtain m1 where m1: "m1 \<in> set (batch_messages st1)" "\<not> settled m1"
      "MsgID m1 = MsgID msg"
    by blast
  have called: "link R (st1, l) (st1, l @ [(MsgID msg, JID msg, c)])" for R c
    by (rule link_called [OF d1 m1(1,2)]) (simp add: m1)
  have fw: "moves_forward (MsgStatus m) MessageStatusFailed" "moves_forward (MsgStatus m) MessageStatusSent"
    if "m \<in> set (batch_messages st1)" "MsgID m = MsgID msg" for m
    using a(4) [OF that] by auto
  have ar: "arrow (MsgStatus m) MessageStatusFailed" "arrow (MsgStatus m) MessageStatusSent"
    if "\<not> fails env DB_MarkSending" "m \<in> set (batch_messages st1)" "MsgID m = MsgID msg" for m
    using a(4) [OF that(2,3)] that(1) by auto
  have tail:
    "successively (link moves_forward) ((st1, k) # markMessageFailed_trace env b msg e (st1, k))"
    "successively (link moves_forward) ((st1, k) # markMessageSent_trace env b msg c (st1, k))"
    for k b e c
    by (rule markMessageFailed_trace_links [OF a(1)], rule fw(1), assumption+)
       (rule markMessageSent_trace_links [OF a(1)], rule fw(2), assumption+)
  have tail':
    "successively (link arrow) ((st1, k) # markMessageFailed_trace env b msg e (st1, k))"
    "successively (link arrow) ((st1, k) # markMessageSent_trace env b msg c (st1, k))"
    if "\<not> fails env DB_MarkSending" for k b e c
    by (rule markMessageFailed_trace_links [OF a(1)], rule ar(1) [OF that], assumption+)
       (rule markMessageSent_trace_links [OF a(1)], rule ar(2) [OF that], assumption+)
  from a(2) have first: "link moves_forward (st, l) (st1, l)"
    by (rule link_mono) (rule arrow_moves_forward)
  show "successively (link moves_forward) (sendMessage_trace env state msg (st, l))"
    using first called [of moves_forward] tail
    by (simp add: sendMessage_trace_def Let_def st1_def [symmetric] split: option.split)
  show "successively (link arrow) (sendMessage_trace env state msg (st, l))"
    if "\<not> fails env DB_MarkSending"
    using a(2) called [of arrow] tail' [OF that]
    by (simp add: sendMessage_trace_def Let_def st1_def [symmetric] split: option.split)
qed

lemma sendMessage_trace_ends:
  "sendMessage_trace env state msg (outside_of s) \<noteq> []"
  "hd (sendMessage_trace env state msg (outside_of s)) = outside_of s"
  "last (sendMessage_trace env state msg (outside_of s)) = outside_of (sendMessage env state msg s)"
  by (simp_all add: sendMessage_trace_def sendMessage_def markMessageFailed_trace_def
      markMessageSent_trace_def markMessageFailed_def markMessageSent_def Let_def outside_of_def
      split: option.split)

subsection \<open>What the transport was handed\<close>

lemma log_startBatch [simp]: "transport_log (startBatch env run s) = transport_log s"
  by (simp add: startBatch_def split: sum.splits option.splits)

lemma log_checkQueue [simp]: "transport_log (checkQueue env s) = transport_log s"
  by (simp add: checkQueue_def split: sum.splits option.splits)

lemma log_completeBatch [simp]: "transport_log (completeBatch env i s) = transport_log s"
  by (simp add: completeBatch_def)

lemma log_CancelBatch [simp]: "transport_log (snd (CancelBatch env i s)) = transport_log s"
  by (simp add: CancelBatch_def Let_def split: sum.splits option.splits)

lemma log_cancelBatch [simp]: "transport_log (cancelBatch env i s) = transport_log s"
  by (simp add: cancelBatch_def split: sum.splits option.splits)

lemma log_restart [simp]: "transport_log (restart env s) = transport_log s"
  by (simp add: restart_def resumeIncompleteRuns_def split: sum.splits option.splits)

lemma log_createBatch_finish [simp]:
  "transport_log (createBatch_finish env i ms s) = transport_log s"
  by (simp add: createBatch_finish_def split: sum.split prod.split)

lemma log_run_goroutine [simp]: "transport_log (run_goroutine env k s) = transport_log s"
  by (simp add: run_goroutine_def split: Goroutine.splits sum.splits option.splits)

lemma log_finish_goroutine [simp]: "transport_log (finish_goroutine env k s) = transport_log s"
  by (simp add: finish_goroutine_def split: Goroutine.splits sum.splits option.splits)

lemma log_deleteBatch [simp]: "transport_log (deleteBatch env i s) = transport_log s"
  by (simp add: deleteBatch_def split: sum.split prod.split)

lemma outside_of_broadcast [simp]:
  "outside_of (broadcastEvent i ev s) = outside_of s"
  "outside_of (broadcastProgress env now i s) = outside_of s"
  "outside_of (scheduleNextMessage env s) = outside_of s"
  by (simp_all add: outside_of_def)

lemma sendMessage_trace_ids_ok:
  assumes "ids_ok st" "out \<in> set (sendMessage_trace env state msg (st, l))"
  shows "ids_ok (fst out)"
proof -
  define st1 where "st1 = or_unchanged st (MarkSending (fails env DB_MarkSending) (MsgID msg) st)"
  have i1: "ids_ok st1"
    unfolding st1_def by (rule ids_ok_MarkSending [OF assms(1)])
  have f: "ids_ok (fst o')" if "o' \<in> set (markMessageFailed_trace env b msg e (st1, k))" for o' b e k
    using that ids_ok_MarkFailed [OF i1] ids_ok_IncrementFailedCount [OF ids_ok_MarkFailed [OF i1]]
    by (auto simp: markMessageFailed_trace_def Let_def)
  have g: "ids_ok (fst o')" if "o' \<in> set (markMessageSent_trace env b msg c (st1, k))" for o' b c k
    using that ids_ok_MarkSent [OF i1] ids_ok_IncrementSentCount [OF ids_ok_MarkSent [OF i1]]
    by (auto simp: markMessageSent_trace_def Let_def)
  from assms(2) consider "out = (st, l)" | "fst out = st1"
    | b e k where "out \<in> set (markMessageFailed_trace env b msg e (st1, k))"
    | b c k where "out \<in> set (markMessageSent_trace env b msg c (st1, k))"
    by (auto simp: sendMessage_trace_def Let_def st1_def [symmetric] split: option.splits)
  then show ?thesis
    using assms(1) i1 f g by cases auto
qed


subsection \<open>The trace of a tick\<close>

lemma tick_trace_ends:
  "tick_trace env s \<noteq> []"
  "hd (tick_trace env s) = outside_of s"
  "last (tick_trace env s) = outside_of (processNextMessage env s)"
  by (auto simp: tick_trace_def processNextMessage_def sendMessage_trace_ends
      split: option.split sum.split)

lemma tick_trace_cases:
  assumes "out \<in> set (tick_trace env s)"
  obtains "frame (store s) (fst out)"
  | current msg where "currentRun (worker s) = Some current"
      "GetNextPending (fails env DB_GetNextPending) (BatchID current) (store s) = Inr (Some msg)"
      "out \<in> set (sendMessage_trace env current msg (store s, transport_log s))"
proof (cases "currentRun (worker s)")
  case None
  with assms have "fst out = store s \<or> fst out = store (checkQueue env s)"
    by (auto simp: tick_trace_def outside_of_def)
  then have "frame (store s) (fst out)"
    using frame_checkQueue [of s env] by auto
  then show ?thesis by (rule that(1))
next
  case (Some current)
  show ?thesis
  proof (cases "clock env < nextSendAt (worker s) \<or> \<not> is_connected env")
    case True
    with Some assms have "fst out = store s"
      by (auto simp: tick_trace_def outside_of_def)
    then have "frame (store s) (fst out)" by simp
    then show ?thesis by (rule that(1))
  next
    case False
    show ?thesis
    proof (cases "GetNextPending (fails env DB_GetNextPending) (BatchID current) (store s)")
      case (Inl e)
      with Some False assms have "fst out = store s"
        by (auto simp: tick_trace_def outside_of_def)
      then have "frame (store s) (fst out)" by simp
      then show ?thesis by (rule that(1))
    next
      case (Inr found)
      show ?thesis
      proof (cases found)
        case None
        with Some False Inr assms have "fst out = store s \<or>
            fst out = or_unchanged (store s)
                (Complete (fails env DB_Complete) (db_time env) (BatchID current) (store s)) \<or>
            fst out = store (completeBatch env (BatchID current) s)"
          by (auto simp: tick_trace_def outside_of_def)
        then have "frame (store s) (fst out)"
          using frame_Complete [of "store s"] frame_completeBatch [of s env "BatchID current"]
          by auto
        then show ?thesis by (rule that(1))
      next
        case (Some msg)
        with \<open>currentRun (worker s) = Some current\<close> False Inr assms
        have "out \<in> set (sendMessage_trace env current msg (store s, transport_log s))"
          by (auto simp: tick_trace_def outside_of_def)
        with \<open>currentRun (worker s) = Some current\<close> Inr Some show ?thesis
          by (intro that(2)) simp_all
      qed
    qed
  qed
qed

lemma tick_trace_ids_ok:
  assumes "ids_ok (store s)" "out \<in> set (tick_trace env s)"
  shows "ids_ok (fst out)"
  using assms(2)
proof (cases rule: tick_trace_cases)
  case 1
  then show ?thesis using assms(1) by (rule frame_ids_ok)
next
  case (2 current msg)
  from sendMessage_trace_ids_ok [OF assms(1) 2(3)] show ?thesis .
qed


lemma tick_trace_links:
  assumes "ids_ok (store s)"
  shows "successively (link moves_forward) (tick_trace env s)"
    and "reliable env \<Longrightarrow> successively (link arrow) (tick_trace env s)"
proof -
  from assms have d: "distinct (map MsgID (batch_messages (store s)))"
    by (simp add: ids_ok_def)
  have same: "link R (store s, transport_log s) (st', transport_log s)" if "frame (store s) st'" for R st'
    by (rule link_same_messages [OF d]) (use that in \<open>simp add: frame_def\<close>)
  have two: "link R (st1, transport_log s) (st', transport_log s)"
    if "frame (store s) st1" "frame st1 st'" for R st1 st'
  proof (rule link_same_messages)
    from frame_ids_ok [OF that(1) assms] show "distinct (map MsgID (batch_messages st1))"
      by (simp add: ids_ok_def)
    from that(2) show "batch_messages st' = batch_messages st1"
      by (simp add: frame_def)
  qed
  have q: "link R (outside_of s) (outside_of (checkQueue env s))" for R
    using same [OF frame_checkQueue [of s env]] by (simp add: outside_of_def)
  have c: "link R (outside_of s) (or_unchanged (store s) (Complete fl ts b (store s)), transport_log s)"
    for R fl ts b
    using same [OF frame_Complete] by (simp add: outside_of_def)
  have e: "link R (or_unchanged (store s) (Complete (fails env DB_Complete) (db_time env) b (store s)), transport_log s)
             (outside_of (completeBatch env b s))" for R b
  proof -
    let ?s1 = "broadcastEvent b
          (zero_event\<lparr>EvType := ''completed'', EvBatchID := b, EvStatus := ''completed''\<rparr>)
          (s\<lparr>store := or_unchanged (store s)
                  (Complete (fails env DB_Complete) (db_time env) b (store s)),
             worker := (worker s)\<lparr>currentRun := None\<rparr>\<rparr>)"
    have "frame (store ?s1) (store (checkQueue env ?s1))"
      by (rule frame_checkQueue)
    then have "frame (or_unchanged (store s) (Complete (fails env DB_Complete) (db_time env) b (store s)))
                 (store (completeBatch env b s))"
      by (simp add: completeBatch_def)
    from two [OF frame_Complete this] show ?thesis
      by (simp add: outside_of_def)
  qed
  have send: "successively (link moves_forward) (sendMessage_trace env current msg (outside_of s))"
    "reliable env \<Longrightarrow> successively (link arrow) (sendMessage_trace env current msg (outside_of s))"
    if "GetNextPending (fails env DB_GetNextPending) (BatchID current) (store s) = Inr (Some msg)"
    for current msg
    using GetNextPending_Some [OF that] sendMessage_trace_links [OF assms, of msg env current "transport_log s"]
    by (simp_all add: outside_of_def reliableD)
  show "successively (link moves_forward) (tick_trace env s)"
    using q c e send(1) by (auto simp: tick_trace_def split: option.split sum.split)
  show "successively (link arrow) (tick_trace env s)" if "reliable env"
    using q c e send(2) [OF _ that] by (auto simp: tick_trace_def split: option.split sum.split)
qed

subsection \<open>Inserting and deleting rows\<close>

lemma length_number_from [simp]: "length (number_from n ms) = length ms"
  by (induction ms arbitrary: n) simp_all

lemma number_from_runs: "map BatchRunID (number_from n ms) = map BatchRunID ms"
  by (induction ms arbitrary: n) simp_all

lemma number_from_range:
  "m \<in> set (number_from n ms) \<Longrightarrow> n \<le> MsgID m \<and> MsgID m < n + int (length ms)"
  by (induction ms arbitrary: n) fastforce+

lemma number_from_distinct: "distinct (map MsgID (number_from n ms))"
proof (induction ms arbitrary: n)
  case Nil
  then show ?case by simp
next
  case (Cons m ms)
  have "n \<notin> MsgID ` set (number_from (n + 1) ms)"
    using number_from_range [of _ "n + 1" ms] by force
  with Cons show ?case by simp
qed

lemma run_of_number_from:
  assumes "m \<in> set (number_from n ms)"
  shows "BatchRunID m \<in> BatchRunID ` set ms"
proof -
  from assms have "BatchRunID m \<in> set (map BatchRunID (number_from n ms))"
    by simp
  then show ?thesis
    by (simp only: number_from_runs set_map)
qed

text \<open>The rows that \<open>CreateMultiple\<close> inserts.\<close>

lemma CreateMultiple_Inr:
  assumes "CreateMultiple fl ts new st = Inr st'"
  obtains rows where "batch_messages st' = batch_messages st @ rows"
    "batch_runs st' = batch_runs st" "next_run_id st' = next_run_id st"
    "next_message_id st' = next_message_id st + int (length new)"
    "length rows = length new" "distinct (map MsgID rows)"
    "\<forall>m \<in> set rows. next_message_id st \<le> MsgID m \<and> MsgID m < next_message_id st + int (length new)"
    "\<forall>m \<in> set rows. BatchRunID m \<in> BatchRunID ` set new"
proof -
  let ?f = "\<lambda>m. m\<lparr>SentContent := None, MsgErrorMessage := None, SentAt := None, MsgCreatedAt := ts\<rparr>"
  let ?rows = "number_from (next_message_id st) (map ?f new)"
  from assms have st': "st' = st\<lparr>batch_messages := batch_messages st @ ?rows,
      next_message_id := next_message_id st + int (length new)\<rparr>"
    by (simp add: CreateMultiple_def split: if_splits)
  have a: "next_message_id st \<le> MsgID m \<and> MsgID m < next_message_id st + int (length new)"
    if "m \<in> set ?rows" for m
    using number_from_range [OF that] by simp
  have b: "BatchRunID m \<in> BatchRunID ` set new" if "m \<in> set ?rows" for m
    using run_of_number_from [OF that] by (auto simp: image_iff)
  show ?thesis
    by (rule that [of ?rows]) (simp_all add: st' number_from_distinct a b)
qed

lemma ids_ok_filter:
  assumes "ids_ok st"
  shows "ids_ok (st\<lparr>batch_runs := filter P (batch_runs st), batch_messages := filter Q (batch_messages st)\<rparr>)"
  using assms by (auto simp: ids_ok_def distinct_map_filter)

lemma ids_ok_Delete:
  "ids_ok st \<Longrightarrow> BatchRun_Delete fl i st = Inr (b, st') \<Longrightarrow> ids_ok st'"
  by (auto simp: BatchRun_Delete_def split: if_splits intro: ids_ok_filter)

lemma ids_ok_Create:
  "ids_ok st \<Longrightarrow> BatchRun_Create fl ts run st = Inr (i, st') \<Longrightarrow> ids_ok st' \<and> i = next_run_id st \<and>
     next_run_id st' = next_run_id st + 1"
  by (fastforce simp: BatchRun_Create_def ids_ok_def split: if_splits)

lemma ids_ok_CreateMultiple:
  assumes "ids_ok st" "CreateMultiple fl ts new st = Inr st'"
  shows "ids_ok st'"
proof -
  from assms(2) obtain rows where r: "batch_messages st' = batch_messages st @ rows"
    "batch_runs st' = batch_runs st" "next_run_id st' = next_run_id st"
    "next_message_id st' = next_message_id st + int (length new)"
    "length rows = length new" "distinct (map MsgID rows)"
    "\<forall>m \<in> set rows. next_message_id st \<le> MsgID m \<and> MsgID m < next_message_id st + int (length new)"
    "\<forall>m \<in> set rows. BatchRunID m \<in> BatchRunID ` set new"
    by (rule CreateMultiple_Inr) blast
  have "distinct (map MsgID (batch_messages st @ rows))"
    using assms(1) r(6,7) by (fastforce simp: ids_ok_def)
  with assms(1) r(7) show ?thesis
    unfolding ids_ok_def r(1-4) by fastforce
qed


lemma awaited_drafts [simp]:
  "awaited (st\<lparr>message_drafts := d\<rparr>) = awaited st"
  "awaited (st\<lparr>message_drafts := d, next_draft_id := n\<rparr>) = awaited st"
  by (rule ext, simp add: awaited_def)+

lemma sound_drafts [simp]:
  "sound ps (st\<lparr>message_drafts := d\<rparr>) = sound ps st"
  "sound ps (st\<lparr>message_drafts := d, next_draft_id := n\<rparr>) = sound ps st"
  by (simp_all add: sound_def ids_ok_def tally_def attached_def)

lemma ids_ok_drafts [simp]:
  "ids_ok (st\<lparr>message_drafts := d\<rparr>) = ids_ok st"
  "ids_ok (st\<lparr>message_drafts := d, next_draft_id := n\<rparr>) = ids_ok st"
  by (simp_all add: ids_ok_def)





subsection \<open>The handler that creates a run\<close>

lemma createBatch_begin_Some:
  assumes "createBatch_begin env d g n members s = Some (i, new, s1)"
  obtains run where
    "BatchRun_Create (fails env DB_Create) (db_time env) run (store s) = Inr (i, store s1)"
    "\<forall>m \<in> set new. BatchRunID m = i" "int (length new) \<le> TotalCount run"
    "goroutines s1 = goroutines s" "transport_log s1 = transport_log s"
    "worker s1 = worker s"
proof -
  from assms obtain draft where
    d: "Draft_GetByID (fails env DB_DraftGetByID) d (store s) = Inr (Some draft)"
    by (auto simp: createBatch_begin_def split: sum.splits option.splits)
  let ?run = "\<lparr>ID = 0, DraftID = d, GroupID = g, GroupName = n,
                        DraftTitle = Title draft, Status = BatchStatusQueued,
                        TotalCount = int (length members), SentCount = 0, FailedCount = 0,
                        ErrorMessage = None, StartedAt = None, CompletedAt = None,
                        CreatedAt = 0\<rparr>"
  from assms d obtain st1 where
    c: "BatchRun_Create (fails env DB_Create) (db_time env) ?run (store s) = Inr (i, st1)"
    and s1: "s1 = s\<lparr>store := st1\<rparr>"
    and new: "new = map (\<lambda>(jid, name).
                                 \<lparr>MsgID = 0, BatchRunID = i, JID = jid, ContactName = name,
                                  MsgStatus = MessageStatusPending,
                                  TemplateContent = Content draft, SentContent = None,
                                  MsgErrorMessage = None, SentAt = None, MsgCreatedAt = 0\<rparr>)
                            members"
    by (auto simp: createBatch_begin_def split: sum.splits if_splits)
  show ?thesis
  proof (rule that [of ?run])
    show "\<forall>m \<in> set new. BatchRunID m = i"
      unfolding new by auto
  qed (simp_all add: c s1 new)
qed

lemma store_createBatch_finish:
  "store (createBatch_finish env i new s) = store s \<or>
   (\<exists>st'. CreateMultiple (fails env DB_CreateMultiple) (db_time env) new (store s) = Inr st' \<and>
      store (createBatch_finish env i new s) = st') \<or>
   (\<exists>b st'. BatchRun_Delete (fails env DB_Delete) i (store s) = Inr (b, st') \<and>
      store (createBatch_finish env i new s) = st')"
  by (cases "CreateMultiple (fails env DB_CreateMultiple) (db_time env) new (store s)";
      cases "BatchRun_Delete (fails env DB_Delete) i (store s)")
    (auto simp: createBatch_finish_def)

lemma createBatch_finish_frame [simp]:
  "goroutines (createBatch_finish env i new s) = goroutines s"
  "worker (createBatch_finish env i new s) = worker s"
  "store (createBatch_finish env i new (s\<lparr>goroutines := gs\<rparr>)) = store (createBatch_finish env i new s)"
  by (simp_all add: createBatch_finish_def split: sum.split prod.split)


lemma ids_ok_createBatch_finish:
  assumes "ids_ok (store s)"
  shows "ids_ok (store (createBatch_finish env i new s))"
  using store_createBatch_finish [of env i new s] assms
    ids_ok_CreateMultiple [OF assms] ids_ok_Delete [OF assms]
  by auto

subsection \<open>Goroutines\<close>

lemma goroutines_startBatch [simp]: "goroutines (startBatch env run s) = goroutines s"
  by (simp add: startBatch_def split: sum.splits option.splits)

lemma goroutines_checkQueue [simp]: "goroutines (checkQueue env s) = goroutines s"
  by (simp add: checkQueue_def split: sum.splits option.splits)

lemma goroutines_completeBatch [simp]: "goroutines (completeBatch env i s) = goroutines s"
  by (simp add: completeBatch_def)

lemma goroutines_sendMessage [simp]: "goroutines (sendMessage env state msg s) = goroutines s"
  by (simp add: sendMessage_def markMessageFailed_def markMessageSent_def Let_def split: option.split)

lemma goroutines_processNextMessage [simp]: "goroutines (processNextMessage env s) = goroutines s"
  by (simp add: processNextMessage_def split: sum.split option.split)

lemma goroutines_restart [simp]: "goroutines (restart env s) = []"
  by (simp add: restart_def resumeIncompleteRuns_def split: sum.split option.split)

lemma goroutines_deleteBatch [simp]: "goroutines (deleteBatch env i s) = goroutines s"
  by (simp add: deleteBatch_def split: sum.split prod.split)

lemma creations_append [simp]: "creations (xs @ ys) = creations xs @ creations ys"
  by (induction xs rule: creations.induct) simp_all

lemma position_in_trace: "xs \<noteq> [] \<Longrightarrow> min k (length xs - 1) < length xs"
  by (cases xs) auto

lemma creations_cancelBatch [simp]:
  "creations (goroutines (cancelBatch env i s)) = creations (goroutines s)"
  by (simp add: cancelBatch_def CancelBatch_def Let_def split: sum.split option.split)

text \<open>What a step of a goroutine does to the store and to the creations under way: it
  rewrites the status of runs, or it ends a creation.\<close>

lemma goroutine_cases:
  assumes "s' = run_goroutine env k s \<or> s' = finish_goroutine env k s"
  obtains "frame (store s) (store s')" "creations (goroutines s') = creations (goroutines s)"
  | A i new B where "creations (goroutines s) = A @ (i, new) # B"
      "creations (goroutines s') = A @ B" "store s' = store (createBatch_finish env i new s)"
proof (cases "k < length (goroutines s)")
  case False
  with assms have "s' = s"
    by (auto simp: run_goroutine_def finish_goroutine_def)
  then show ?thesis
    by (intro that(1)) simp_all
next
  case True
  let ?gs = "goroutines s"
  let ?A = "creations (take k ?gs)"
  let ?B = "creations (drop (Suc k) ?gs)"
  from True have split: "?gs = take k ?gs @ ?gs ! k # drop (Suc k) ?gs"
    by (rule id_take_nth_drop)
  have all: "creations ?gs = ?A @ creations [?gs ! k] @ ?B"
  proof -
    from split have "?gs = take k ?gs @ [?gs ! k] @ drop (Suc k) ?gs"
      by simp
    then have "creations ?gs = creations (take k ?gs @ [?gs ! k] @ drop (Suc k) ?gs)"
      by (rule arg_cong)
    then show ?thesis
      by (simp only: creations_append)
  qed
  have less: "creations (without k ?gs) = ?A @ ?B"
    by (simp add: without_def)
  have upd: "creations (?gs[k := g]) = ?A @ creations [g] @ ?B" for g
  proof -
    from True have "?gs[k := g] = take k ?gs @ [g] @ drop (Suc k) ?gs"
      by (simp add: upd_conv_take_nth_drop)
    then have "creations (?gs[k := g]) = creations (take k ?gs @ [g] @ drop (Suc k) ?gs)"
      by (rule arg_cong)
    then show ?thesis
      by (simp only: creations_append)
  qed
  have fs: "frame (store (s\<lparr>goroutines := g\<rparr>)) (store (startBatch env q (s\<lparr>goroutines := g\<rparr>)))" for g q
    by (rule frame_startBatch)
  have fq: "frame (store (s\<lparr>goroutines := g\<rparr>)) (store (checkQueue env (s\<lparr>goroutines := g\<rparr>)))" for g
    by (rule frame_checkQueue)
  show ?thesis
  proof (cases "?gs ! k")
    case (GoBroadcastEvent b ev)
    with assms True all less have "store s' = store s" "creations (goroutines s') = creations ?gs"
      by (auto simp: run_goroutine_def finish_goroutine_def)
    then show ?thesis by (intro that(1)) simp_all
  next
    case GoCheckQueue
    with assms True all less upd [of GoCheckQueue_fetch] fq [of "without k ?gs"]
    have "frame (store s) (store s')" "creations (goroutines s') = creations ?gs"
      by (auto simp: run_goroutine_def finish_goroutine_def)
    then show ?thesis by (rule that(1))
  next
    case GoCheckQueue_fetch
    have "frame (store s) (store s') \<and> creations (goroutines s') = creations ?gs"
    proof (cases "GetNextQueued (fails env DB_GetNextQueued) (store s)")
      case (Inl e)
      with GoCheckQueue_fetch assms True all less show ?thesis
        by (auto simp: run_goroutine_def finish_goroutine_def)
    next
      case (Inr found)
      show ?thesis
      proof (cases found)
        case None
        with Inr GoCheckQueue_fetch assms True all less show ?thesis
          by (auto simp: run_goroutine_def finish_goroutine_def)
      next
        case (Some queued)
        with Inr GoCheckQueue_fetch assms True all less upd [of "GoCheckQueue_start queued"]
          fs [of "without k ?gs" queued]
        show ?thesis
          by (auto simp: run_goroutine_def finish_goroutine_def)
      qed
    qed
    then show ?thesis by (intro that(1)) simp_all
  next
    case (GoCheckQueue_start queued)
    with assms True all less fs [of "without k ?gs" queued]
    have "frame (store s) (store s')" "creations (goroutines s') = creations ?gs"
      by (auto simp: run_goroutine_def finish_goroutine_def)
    then show ?thesis by (rule that(1))
  next
    case (GoCreateBatch_insert i new)
    with assms True have s': "s' = createBatch_finish env i new (s\<lparr>goroutines := without k ?gs\<rparr>)"
      by (auto simp: run_goroutine_def finish_goroutine_def)
    show ?thesis
    proof (rule that(2) [of ?A i new ?B])
      show "creations ?gs = ?A @ (i, new) # ?B"
        using all GoCreateBatch_insert by simp
      show "creations (goroutines s') = ?A @ ?B"
        using less by (simp add: s')
      show "store s' = store (createBatch_finish env i new s)"
        by (simp add: s')
    qed
  qed
qed

subsection \<open>Every step keeps the store sound\<close>

lemma ids_ok_step:
  assumes "ids_ok (store s)"
  shows "ids_ok (store (step ev s))"
proof (cases ev)
  case (Tick env)
  have "last (tick_trace env s) \<in> set (tick_trace env s)"
    by (simp add: tick_trace_ends(1))
  from tick_trace_ids_ok [OF assms this] Tick show ?thesis
    by (simp add: tick_trace_ends(3) outside_of_def)
next
  case (CancelRequest env i)
  with frame_ids_ok [OF frame_cancelBatch assms] show ?thesis by simp
next
  case (GoStep env k)
  then have "step ev s = run_goroutine env k s \<or> step ev s = finish_goroutine env k s"
    by simp
  then show ?thesis
  proof (cases rule: goroutine_cases)
    case 1
    from frame_ids_ok [OF 1(1) assms] show ?thesis .
  next
    case (2 A i new B)
    with ids_ok_createBatch_finish [OF assms] show ?thesis by simp
  qed
next
  case (GoFinish env k)
  then have "step ev s = run_goroutine env k s \<or> step ev s = finish_goroutine env k s"
    by simp
  then show ?thesis
  proof (cases rule: goroutine_cases)
    case 1
    from frame_ids_ok [OF 1(1) assms] show ?thesis .
  next
    case (2 A i new B)
    with ids_ok_createBatch_finish [OF assms] show ?thesis by simp
  qed
next
  case (CreateDraft title content)
  with assms show ?thesis by (simp add: Draft_Create_def)
next
  case (DeleteDraft i)
  with assms show ?thesis by (simp add: Draft_Delete_def or_unchanged_def)
next
  case (CreateBatch env d g n members)
  show ?thesis
  proof (cases "createBatch_begin env d g n members s")
    case None
    with CreateBatch assms show ?thesis by (simp add: createBatch_def)
  next
    case (Some t)
    then obtain i new s1 where t: "createBatch_begin env d g n members s = Some (i, new, s1)"
      by (cases t) auto
    from t obtain run where
      "BatchRun_Create (fails env DB_Create) (db_time env) run (store s) = Inr (i, store s1)"
      by (rule createBatch_begin_Some)
    from ids_ok_Create [OF assms this] have "ids_ok (store s1)" by simp
    from ids_ok_createBatch_finish [OF this] CreateBatch t show ?thesis
      by (simp add: createBatch_def)
  qed
next
  case (DeleteBatch env i)
  with assms show ?thesis
    by (auto simp: deleteBatch_def split: sum.split prod.split dest: ids_ok_Delete)
next
  case (Restart env)
  with frame_ids_ok [OF frame_restart assms] show ?thesis by simp
next
  case (SubscribeTo b)
  with assms show ?thesis by (simp add: Subscribe_def Let_def)
next
  case (UnsubscribeFrom b c)
  with assms show ?thesis by (simp add: Unsubscribe_def)
next
  case (Receive b c)
  with assms show ?thesis by (simp add: receive_def)
next
  case (CreateBatchStart env d g n members)
  show ?thesis
  proof (cases "createBatch_begin env d g n members s")
    case None
    with CreateBatchStart assms show ?thesis by (simp add: createBatch_start_def)
  next
    case (Some t)
    then obtain i new s1 where t: "createBatch_begin env d g n members s = Some (i, new, s1)"
      by (cases t) auto
    from t obtain run where
      "BatchRun_Create (fails env DB_Create) (db_time env) run (store s) = Inr (i, store s1)"
      by (rule createBatch_begin_Some)
    from ids_ok_Create [OF assms this] have "ids_ok (store s1)" by simp
    with CreateBatchStart t show ?thesis
      by (simp add: createBatch_start_def)
  qed
next
  case (DieInTick env k env')
  let ?out = "tick_trace env s ! min k (length (tick_trace env s) - 1)"
  have "?out \<in> set (tick_trace env s)"
    by (intro nth_mem position_in_trace tick_trace_ends(1))
  from tick_trace_ids_ok [OF assms this] have "ids_ok (fst ?out)" .
  then have "ids_ok (store (s\<lparr>store := fst ?out, transport_log := snd ?out\<rparr>))"
    by simp
  from frame_ids_ok [OF frame_restart this] DieInTick show ?thesis
    by (simp add: die_in_tick_def Let_def)
qed



lemma ids_ok_exec: "ids_ok (store s) \<Longrightarrow> ids_ok (store (exec evs s))"
  by (induction evs arbitrary: s) (simp_all add: ids_ok_step)


lemma init_ok:
  "ids_ok (store init_system)" "sound (creations (goroutines init_system)) (store init_system)"
  by (simp_all add: init_system_def init_store_def ids_ok_def sound_def tally_def attached_def)


subsection \<open>The trace of a step\<close>

lemma successively_take: "successively P xs \<Longrightarrow> successively P (take n xs)"
  using successively_append_iff [of P "take n xs" "drop n xs"] by simp

lemma last_take_Suc: "j < length xs \<Longrightarrow> last (take (Suc j) xs) = xs ! j"
  by (simp add: take_Suc_conv_app_nth)

text \<open>A store whose messages are those of another, some deleted and some inserted under
  new identifiers.\<close>

lemma link_kept:
  assumes i: "ids_ok st"
    and k: "\<And>m'. m' \<in> set (batch_messages st') \<Longrightarrow>
               m' \<in> set (batch_messages st) \<or> next_message_id st \<le> MsgID m'"
  shows "link R (st, l) (st', l)"
proof -
  from i have d: "distinct (map MsgID (batch_messages st))"
    by (simp add: ids_ok_def)
  have "m' = m" if "m \<in> set (batch_messages st)" "m' \<in> set (batch_messages st')" "MsgID m' = MsgID m"
    for m m'
  proof -
    from i that(1) have "MsgID m < next_message_id st"
      by (simp add: ids_ok_def)
    with k [OF that(2)] that(3) have "m' \<in> set (batch_messages st)"
      by auto
    from same_id_same_message [OF d that(1) this that(3)] show ?thesis .
  qed
  then show ?thesis
    by (simp add: link_def)
qed

lemma link_frame: "ids_ok st \<Longrightarrow> frame st st' \<Longrightarrow> link R (st, l) (st', l)"
  by (rule link_kept) (simp_all add: frame_def)

lemma kept_Delete:
  "BatchRun_Delete fl i st = Inr (b, st') \<Longrightarrow> m' \<in> set (batch_messages st') \<Longrightarrow>
   m' \<in> set (batch_messages st)"
  by (auto simp: BatchRun_Delete_def split: if_splits)

lemma kept_CreateMultiple:
  assumes "CreateMultiple fl ts new st = Inr st'" "m' \<in> set (batch_messages st')"
  shows "m' \<in> set (batch_messages st) \<or> next_message_id st \<le> MsgID m'"
proof -
  from assms(1) obtain rows where "batch_messages st' = batch_messages st @ rows"
    "batch_runs st' = batch_runs st" "next_run_id st' = next_run_id st"
    "next_message_id st' = next_message_id st + int (length new)"
    "length rows = length new" "distinct (map MsgID rows)"
    "\<forall>m \<in> set rows. next_message_id st \<le> MsgID m \<and> MsgID m < next_message_id st + int (length new)"
    "\<forall>m \<in> set rows. BatchRunID m \<in> BatchRunID ` set new"
    by (rule CreateMultiple_Inr) blast
  with assms(2) show ?thesis by auto
qed

lemma kept_createBatch_finish:
  assumes "m' \<in> set (batch_messages (store (createBatch_finish env i new s)))"
  shows "m' \<in> set (batch_messages (store s)) \<or> next_message_id (store s) \<le> MsgID m'"
  using store_createBatch_finish [of env i new s] assms kept_Delete kept_CreateMultiple
  by metis

lemma link_createBatch_finish:
  "ids_ok (store s) \<Longrightarrow>
   link R (outside_of s) (outside_of (createBatch_finish env i new s))"
  unfolding outside_of_def log_createBatch_finish
  by (rule link_kept) (simp_all add: kept_createBatch_finish)

lemma link_goroutine:
  assumes "ids_ok (store s)" "s' = run_goroutine env k s \<or> s' = finish_goroutine env k s"
  shows "link R (outside_of s) (outside_of s')"
proof -
  have l: "transport_log s' = transport_log s"
    using assms(2) by auto
  from assms(2) show ?thesis
  proof (cases rule: goroutine_cases)
    case 1
    from link_frame [OF assms(1) 1(1)] l show ?thesis
      by (simp add: outside_of_def)
  next
    case (2 A i new B)
    from link_createBatch_finish [OF assms(1), of R env i new] 2(3) l show ?thesis
      by (simp add: outside_of_def)
  qed
qed

lemma createBatch_begin_kept:
  assumes "createBatch_begin env d g n members s = Some (i, new, s1)"
  shows "batch_messages (store s1) = batch_messages (store s)"
    "next_message_id (store s1) = next_message_id (store s)"
    "transport_log s1 = transport_log s"
proof -
  from assms obtain run where
    c: "BatchRun_Create (fails env DB_Create) (db_time env) run (store s) = Inr (i, store s1)"
    and l: "transport_log s1 = transport_log s"
    by (rule createBatch_begin_Some)
  from c have "store s1 = (store s)\<lparr>batch_runs := batch_runs (store s) @
      [run\<lparr>ID := next_run_id (store s), SentCount := 0, FailedCount := 0, ErrorMessage := None,
           StartedAt := None, CompletedAt := None, CreatedAt := db_time env\<rparr>],
      next_run_id := next_run_id (store s) + 1\<rparr>"
    by (auto simp: BatchRun_Create_def split: if_splits)
  then show "batch_messages (store s1) = batch_messages (store s)"
    "next_message_id (store s1) = next_message_id (store s)"
    by simp_all
  from l show "transport_log s1 = transport_log s" .
qed

lemma link_createBatch:
  assumes "ids_ok (store s)"
  shows "link R (outside_of s) (outside_of (createBatch env d g n members s))"
    and "link R (outside_of s) (outside_of (createBatch_start env d g n members s))"
proof -
  have "link R (outside_of s) (outside_of (createBatch env d g n members s)) \<and>
        link R (outside_of s) (outside_of (createBatch_start env d g n members s))"
  proof (cases "createBatch_begin env d g n members s")
    case None
    with link_frame [OF assms frame_refl] show ?thesis
      by (simp add: createBatch_def createBatch_start_def outside_of_def)
  next
    case (Some t)
    then obtain i new s1 where t: "createBatch_begin env d g n members s = Some (i, new, s1)"
      by (cases t) auto
    note k = createBatch_begin_kept [OF t]
    have a: "link R (store s, transport_log s) (store s1, transport_log s)"
      by (rule link_kept [OF assms]) (simp add: k)
    have "link R (store s, transport_log s)
            (store (createBatch_finish env i new s1), transport_log s)"
    proof (rule link_kept [OF assms])
      fix m' assume "m' \<in> set (batch_messages (store (createBatch_finish env i new s1)))"
      from kept_createBatch_finish [OF this] k
      show "m' \<in> set (batch_messages (store s)) \<or> next_message_id (store s) \<le> MsgID m'"
        by simp
    qed
    with a t k(3) show ?thesis
      by (simp add: createBatch_def createBatch_start_def outside_of_def)
  qed
  then show "link R (outside_of s) (outside_of (createBatch env d g n members s))"
    and "link R (outside_of s) (outside_of (createBatch_start env d g n members s))"
    by simp_all
qed

lemma link_deleteBatch:
  assumes "ids_ok (store s)"
  shows "link R (outside_of s) (outside_of (deleteBatch env i s))"
  unfolding outside_of_def log_deleteBatch
proof (rule link_kept [OF assms])
  fix m' assume "m' \<in> set (batch_messages (store (deleteBatch env i s)))"
  then have "m' \<in> set (batch_messages (store s))"
    by (auto simp: deleteBatch_def split: sum.splits prod.splits dest: kept_Delete)
  then show "m' \<in> set (batch_messages (store s)) \<or> next_message_id (store s) \<le> MsgID m'" ..
qed

lemma step_trace_ends:
  "step_trace ev s \<noteq> []"
  "hd (step_trace ev s) = outside_of s"
  "last (step_trace ev s) = outside_of (step ev s)"
proof -
  have "step_trace ev s \<noteq> [] \<and> hd (step_trace ev s) = outside_of s \<and>
        last (step_trace ev s) = outside_of (step ev s)"
  proof (cases ev)
    case (Tick env)
    then show ?thesis by (simp add: tick_trace_ends)
  next
    case (DieInTick env k env')
    then show ?thesis
      by (simp add: hd_append hd_take tick_trace_ends)
  qed simp_all
  then show "step_trace ev s \<noteq> []" "hd (step_trace ev s) = outside_of s"
    "last (step_trace ev s) = outside_of (step ev s)"
    by simp_all
qed

lemma step_trace_links:
  assumes i: "ids_ok (store s)"
  shows "successively (link moves_forward) (step_trace ev s)"
    and "reliable_event ev \<Longrightarrow> successively (link arrow) (step_trace ev s)"
proof -
  have same: "link R (outside_of s) (outside_of s')"
    if "batch_messages (store s') = batch_messages (store s)" "transport_log s' = transport_log s"
    for R s'
    unfolding outside_of_def that(2)
    by (rule link_kept [OF i]) (simp add: that(1))
  have "successively (link moves_forward) (step_trace ev s) \<and>
        (reliable_event ev \<longrightarrow> successively (link arrow) (step_trace ev s))"
  proof (cases ev)
    case (Tick env)
    with tick_trace_links [OF i, of env] show ?thesis by simp
  next
    case (CancelRequest env b)
    with link_frame [OF i frame_cancelBatch] show ?thesis
      by (simp add: outside_of_def)
  next
    case (GoStep env k)
    with link_goroutine [OF i, of "step ev s" env k] show ?thesis by simp
  next
    case (GoFinish env k)
    with link_goroutine [OF i, of "step ev s" env k] show ?thesis by simp
  next
    case (CreateDraft title content)
    with same [of "step ev s"] show ?thesis
      by (simp add: Draft_Create_def)
  next
    case (DeleteDraft d)
    have "batch_messages (or_unchanged (store s) (Draft_Delete d (store s))) = batch_messages (store s)"
      by (simp add: Draft_Delete_def or_unchanged_def)
    with DeleteDraft same [of "step ev s"] show ?thesis
      by simp
  next
    case (CreateBatch env d g n members)
    with link_createBatch(1) [OF i] show ?thesis by simp
  next
    case (DeleteBatch env b)
    with link_deleteBatch [OF i] show ?thesis by simp
  next
    case (Restart env)
    with link_frame [OF i frame_restart] show ?thesis
      by (simp add: outside_of_def)
  next
    case (SubscribeTo b)
    with same [of "step ev s"] show ?thesis by (simp add: Subscribe_def Let_def)
  next
    case (UnsubscribeFrom b c)
    with same [of "step ev s"] show ?thesis by (simp add: Unsubscribe_def)
  next
    case (Receive b c)
    with same [of "step ev s"] show ?thesis by (simp add: receive_def)
  next
    case (CreateBatchStart env d g n members)
    with link_createBatch(2) [OF i] show ?thesis by simp
  next
    case (DieInTick env k env')
    let ?tr = "tick_trace env s"
    let ?j = "min k (length ?tr - 1)"
    obtain st l where o: "?tr ! ?j = (st, l)"
      by (cases "?tr ! ?j")
    let ?s1 = "s\<lparr>store := st, transport_log := l\<rparr>"
    have j: "?j < length ?tr"
      by (intro position_in_trace tick_trace_ends(1))
    then have "?tr ! ?j \<in> set ?tr"
      by (rule nth_mem)
    from tick_trace_ids_ok [OF i this, unfolded o] have "ids_ok (store ?s1)"
      by simp
    from link_frame [OF this frame_restart]
    have r: "link R (st, l) (store (restart env' ?s1), l)" for R
      by simp
    have d: "die_in_tick env k env' s = restart env' ?s1"
      by (simp only: die_in_tick_def Let_def o fst_conv snd_conv)
    have e: "last (take (Suc ?j) ?tr) = (st, l)"
      by (simp only: last_take_Suc [OF j] o)
    have death: "link R (last (take (Suc ?j) ?tr)) (outside_of (die_in_tick env k env' s))" for R
      unfolding d e using r [of R] by (simp add: outside_of_def)
    have "successively (link moves_forward) (take (Suc ?j) ?tr)"
      by (rule successively_take) (rule tick_trace_links(1) [OF i])
    moreover have "successively (link arrow) (take (Suc ?j) ?tr)" if "reliable env"
      by (rule successively_take) (rule tick_trace_links(2) [OF i that])
    ultimately show ?thesis
      using DieInTick death by (simp add: successively_append_iff)
  qed
  then show "successively (link moves_forward) (step_trace ev s)"
    and "reliable_event ev \<Longrightarrow> successively (link arrow) (step_trace ev s)"
    by simp_all
qed

section \<open>Properties\<close>

subsection \<open>Cancellation touches only queued and running runs\<close>

text \<open>
  C6. \<open>CancelBatch\<close> leaves the table of runs as long as it was, and row by row: a row
  is rewritten (status \<open>cancelled\<close>, completion time stamped) exactly when it is the run
  asked for, its status is \<open>queued\<close> or \<open>running\<close>, and the update succeeds; every
  other row, so every row in a terminal status, is kept as it is, field by field. When the
  run asked for is already terminal, the whole store is unchanged.
\<close>

theorem cancel_only_queued_or_running:
  "length (batch_runs (store (snd (CancelBatch env i s)))) = length (batch_runs (store s)) \<and>
   (\<forall>k < length (batch_runs (store s)).
      batch_runs (store (snd (CancelBatch env i s))) ! k =
        (if ID (batch_runs (store s) ! k) = i \<and> \<not> terminal (Status (batch_runs (store s) ! k))
            \<and> \<not> fails env DB_Cancel
         then cancelled_row (db_time env) (batch_runs (store s) ! k)
         else batch_runs (store s) ! k)) \<and>
   ((\<forall>r \<in> set (batch_runs (store s)). ID r = i \<longrightarrow> terminal (Status r)) \<longrightarrow>
      store (snd (CancelBatch env i s)) = store s)"
proof (intro conjI allI impI)
  show "length (batch_runs (store (snd (CancelBatch env i s)))) = length (batch_runs (store s))"
    by (simp add: CancelBatch_store Cancel_def or_unchanged_def)
next
  fix k assume "k < length (batch_runs (store s))"
  then show "batch_runs (store (snd (CancelBatch env i s))) ! k =
        (if ID (batch_runs (store s) ! k) = i \<and> \<not> terminal (Status (batch_runs (store s) ! k))
            \<and> \<not> fails env DB_Cancel
         then cancelled_row (db_time env) (batch_runs (store s) ! k)
         else batch_runs (store s) ! k)"
    by (cases "Status (batch_runs (store s) ! k)")
       (simp_all add: CancelBatch_store Cancel_def or_unchanged_def update_rows_nth terminal_def
          cancelled_row_def)
next
  assume a: "\<forall>r \<in> set (batch_runs (store s)). ID r = i \<longrightarrow> terminal (Status r)"
  have "update_rows (\<lambda>r. ID r = i \<and> (Status r = BatchStatusQueued \<or> Status r = BatchStatusRunning))
          (\<lambda>r. r\<lparr>Status := BatchStatusCancelled, CompletedAt := Some (db_time env)\<rparr>)
          (batch_runs (store s))
        = batch_runs (store s)"
    using a by (intro update_rows_same) (auto simp: terminal_def)
  then show "store (snd (CancelBatch env i s)) = store s"
    by (simp add: CancelBatch_store Cancel_def or_unchanged_def)
qed

theorem cancel_completed_run_witness:
  "map (\<lambda>r. (ID r, Status r)) (batch_runs (store run_completed)) = [(1, BatchStatusCompleted)] \<and>
   store (snd (CancelBatch (fair_env 90) 1 run_completed)) = store run_completed \<and>
   batch_runs (store (snd (CancelBatch (fair_env 90) 1 run_completed))) ! 0 =
     batch_runs (store run_completed) ! 0"
proof -
  have m: "map (\<lambda>r. (ID r, Status r)) (batch_runs (store run_completed)) = [(1, BatchStatusCompleted)]"
    by code_simp
  have h: "\<forall>r \<in> set (batch_runs (store run_completed)). ID r = 1 \<longrightarrow> terminal (Status r)"
  proof
    fix r assume "r \<in> set (batch_runs (store run_completed))"
    then have "(ID r, Status r) \<in> set (map (\<lambda>r. (ID r, Status r)) (batch_runs (store run_completed)))"
      by force
    then show "ID r = 1 \<longrightarrow> terminal (Status r)"
      unfolding m by (simp add: terminal_def)
  qed
  have l: "0 < length (batch_runs (store run_completed))"
    using arg_cong [OF m, of length] by simp
  from cancel_only_queued_or_running [of "fair_env 90" 1 run_completed] h l m
  show ?thesis by (simp add: terminal_def)
qed

subsection \<open>The pacer is re-armed after every dispatch\<close>

text \<open>
  C4. Whatever the outcome of \<open>sendMessage\<close> (the placeholder lookup fails, the
  transport refuses the message, or the message is sent), and whatever the store does, the
  worker returns from it with \<open>nextSendAt\<close> set to the time read in
  \<open>scheduleNextMessage\<close> plus the delay drawn there, and that delay is at least 10
  seconds and less than 15 seconds.
\<close>

theorem pacer_rearmed_after_dispatch:
  "nextSendAt (worker (sendMessage env state msg s)) = clock_sched env + next_delay env \<and>
   10 * Second \<le> nextSendAt (worker (sendMessage env state msg s)) - clock_sched env \<and>
   nextSendAt (worker (sendMessage env state msg s)) - clock_sched env < 15 * Second"
proof -
  have "nextSendAt (worker (sendMessage env state msg s)) = clock_sched env + next_delay env"
    by (simp add: sendMessage_def Let_def scheduleNextMessage_def split: option.splits)
  then show ?thesis using next_delay_bounds [of env] by simp
qed

subsection \<open>Broadcast drops an event only for a full subscriber\<close>

text \<open>
  C9. \<open>broadcastEvent\<close> keeps the list of channels registered for the run, and channel
  by channel: a channel whose buffer has room receives the event at the end of its buffer,
  a channel whose buffer is full is left as it is (the event is dropped for it, and the
  others still receive it). The channels of other runs, the store and the scheduler's own
  state are untouched. The call is a \<open>select\<close> with an empty \<open>default\<close> on every channel,
  so it returns in every state, full buffers included. A channel made by \<open>Subscribe\<close>
  has capacity 10, starts empty and is registered last for its run.
\<close>

theorem broadcast_drops_only_when_full:
  "length (subscribers (worker (broadcastEvent i ev s)) i) = length (subscribers (worker s) i) \<and>
   (\<forall>k < length (subscribers (worker s) i).
      subscribers (worker (broadcastEvent i ev s)) i ! k =
        (if length (chan_buf (subscribers (worker s) i ! k)) < chan_cap (subscribers (worker s) i ! k)
         then (subscribers (worker s) i ! k)\<lparr>chan_buf := chan_buf (subscribers (worker s) i ! k) @ [ev]\<rparr>
         else subscribers (worker s) i ! k)) \<and>
   (\<forall>j. j \<noteq> i \<longrightarrow> subscribers (worker (broadcastEvent i ev s)) j = subscribers (worker s) j) \<and>
   store (broadcastEvent i ev s) = store s \<and>
   currentRun (worker (broadcastEvent i ev s)) = currentRun (worker s) \<and>
   nextSendAt (worker (broadcastEvent i ev s)) = nextSendAt (worker s) \<and>
   chan_cap (fst (Subscribe i s)) = 10 \<and> chan_buf (fst (Subscribe i s)) = [] \<and>
   subscribers (worker (snd (Subscribe i s))) i = subscribers (worker s) i @ [fst (Subscribe i s)]"
  by (simp add: broadcastEvent_def try_send_def chan_send_def Subscribe_def Let_def)

theorem broadcast_witness:
  "map (\<lambda>ch. (length (chan_buf ch), chan_cap ch)) (subscribers (worker one_full_one_empty) 1) = [(10, 10), (0, 10)] \<and>
   map (\<lambda>ch. length (chan_buf ch))
     (subscribers (worker (broadcastEvent 1 (disconnected_event 1) one_full_one_empty)) 1) = [10, 1] \<and>
   subscribers (worker (broadcastEvent 1 (disconnected_event 1) one_full_one_empty)) 1 ! 0 =
     subscribers (worker one_full_one_empty) 1 ! 0 \<and>
   chan_buf (subscribers (worker (broadcastEvent 1 (disconnected_event 1) one_full_one_empty)) 1 ! 1) =
     [disconnected_event 1]"
proof -
  let ?s = one_full_one_empty
  let ?s' = "broadcastEvent 1 (disconnected_event 1) one_full_one_empty"
  have m: "map (\<lambda>ch. (length (chan_buf ch), chan_cap ch)) (subscribers (worker ?s) 1) = [(10, 10), (0, 10)]"
    by code_simp
  have e: "chan_buf (subscribers (worker ?s) 1 ! 1) = []"
    by code_simp
  from arg_cong [OF m, of length] have len: "length (subscribers (worker ?s) 1) = 2"
    by simp
  from arg_cong [OF m, of "\<lambda>xs. xs ! 0"] len
  have k0: "length (chan_buf (subscribers (worker ?s) 1 ! 0)) = 10" "chan_cap (subscribers (worker ?s) 1 ! 0) = 10"
    by simp_all
  from arg_cong [OF m, of "\<lambda>xs. xs ! 1"] len
  have k1: "length (chan_buf (subscribers (worker ?s) 1 ! 1)) = 0" "chan_cap (subscribers (worker ?s) 1 ! 1) = 10"
    by simp_all
  note t = broadcast_drops_only_when_full [of 1 "disconnected_event 1" ?s]
  from t have len': "length (subscribers (worker ?s') 1) = 2"
    using len by simp
  from t len k0 have a0: "subscribers (worker ?s') 1 ! 0 = subscribers (worker ?s) 1 ! 0"
    by simp
  from t len k1 e have a1: "chan_buf (subscribers (worker ?s') 1 ! 1) = [disconnected_event 1]"
    by simp
  have "map (\<lambda>ch. length (chan_buf ch)) (subscribers (worker ?s') 1) = [10, 1]"
    using len' a0 a1 k0 by (simp add: list_eq_iff_nth_eq nth_Cons' numeral_2_eq_2 less_Suc_eq)
  with m a0 a1 show ?thesis by simp
qed

subsection \<open>A disconnected transport pauses the run\<close>

text \<open>
  C5. Take a worker with an active run and any number of consecutive ticks at which the
  deadline of the pacer has passed and the transport reports that it is not connected. Each
  of these ticks only broadcasts one event of kind \<open>error\<close> to the subscribers of the
  run. The store is the same afterwards (so the run keeps the status it had, \<open>running\<close>,
  and no message leaves \<open>pending\<close>), the active run and the deadline are the same (so the
  next tick takes the same decision), and nothing was handed to the transport.
\<close>

theorem disconnected_ticks_keep_running:
  assumes "currentRun (worker s) = Some current"
    and "list_all (\<lambda>env. nextSendAt (worker s) \<le> clock env \<and> \<not> is_connected env) envs"
  shows "exec (map Tick envs) s =
           ((broadcastEvent (BatchID current) (disconnected_event (BatchID current))) ^^ length envs) s \<and>
         EvType (disconnected_event (BatchID current)) = ''error'' \<and>
         store (exec (map Tick envs) s) = store s \<and>
         currentRun (worker (exec (map Tick envs) s)) = Some current \<and>
         nextSendAt (worker (exec (map Tick envs) s)) = nextSendAt (worker s) \<and>
         transport_log (exec (map Tick envs) s) = transport_log s"
  using disconnected_ticks [OF assms] funpow_broadcast_frame assms(1)
  by (simp add: disconnected_event_def zero_event_def)

theorem disconnected_ticks_witness:
  "currentRun (worker watched_run) = Some active_one \<and>
   list_all (\<lambda>env. nextSendAt (worker watched_run) \<le> clock env \<and> \<not> is_connected env)
     [offline_env 20, offline_env 21] \<and>
   map (\<lambda>r. (ID r, Status r)) (batch_runs (store watched_run)) = [(1, BatchStatusRunning)] \<and>
   store (exec (map Tick [offline_env 20, offline_env 21]) watched_run) = store watched_run \<and>
   currentRun (worker (exec (map Tick [offline_env 20, offline_env 21]) watched_run)) = Some active_one \<and>
   map EvType (chan_buf (subscribers (worker (exec (map Tick [offline_env 20, offline_env 21]) watched_run)) 1 ! 0))
     = [''progress'', ''error'', ''error'']"
proof -
  have c: "currentRun (worker watched_run) = Some active_one"
    by code_simp
  have l: "list_all (\<lambda>env. nextSendAt (worker watched_run) \<le> clock env \<and> \<not> is_connected env)
     [offline_env 20, offline_env 21]"
    by code_simp
  have r: "map (\<lambda>r. (ID r, Status r)) (batch_runs (store watched_run)) = [(1, BatchStatusRunning)]"
    by code_simp
  have b: "map EvType (chan_buf (subscribers (worker
      (broadcastEvent (BatchID active_one) (disconnected_event (BatchID active_one))
        (broadcastEvent (BatchID active_one) (disconnected_event (BatchID active_one)) watched_run))) 1 ! 0))
     = [''progress'', ''error'', ''error'']"
    by code_simp
  from disconnected_ticks_keep_running [OF c l] c l r b
  show ?thesis by (simp add: numeral_2_eq_2)
qed

subsection \<open>The progress snapshot\<close>

text \<open>
  C10. \<open>GetProgress\<close> returns an error when the store has no run with the identifier.
  When the store returns the run, it returns a snapshot whose \<open>NextSendInSeconds\<close> is,
  for a run in status \<open>running\<close>, the whole seconds left until \<open>nextSendAt\<close> and 0
  once that time has passed, and 0 for a run in any other status. (The conversion
  \<open>int(d.Seconds())\<close> is taken as exact division of the nanoseconds.)
\<close>

theorem GetProgress_snapshot:
  "(find (\<lambda>r. ID r = i) (batch_runs (store s)) = None \<longrightarrow>
      (\<exists>err. GetProgress env now i s = Inl err)) \<and>
   (\<forall>run. \<not> fails env DB_GetByID \<and> find (\<lambda>r. ID r = i) (batch_runs (store s)) = Some run \<longrightarrow>
      (\<exists>p. GetProgress env now i s = Inr p \<and>
           NextSendInSeconds p =
             (if Status run = BatchStatusRunning
              then max 0 ((nextSendAt (worker s) - now) div Second) else 0) \<and>
           0 \<le> NextSendInSeconds p))"
proof -
  have w: "(if whole_seconds d < 0 then 0 else whole_seconds d) = max 0 (d div Second)" for d
  proof (cases "d < 0")
    case True
    then have "d div Second < 0" by (simp add: Second_def)
    moreover from True have "0 \<le> (- d) div Second" by (simp add: Second_def)
    ultimately show ?thesis using True by (simp add: whole_seconds_def)
  next
    case False
    then have "0 \<le> d div Second" by (simp add: Second_def)
    then show ?thesis using False by (simp add: whole_seconds_def)
  qed
  show ?thesis
    using w [of "nextSendAt (worker s) - now"]
    by (auto simp: GetProgress_def BatchRun_GetByID_def Let_def split: if_splits)
qed

theorem GetProgress_witness:
  "find (\<lambda>r. ID r = 7) (batch_runs (store watched_run)) = None \<and>
   isl (GetProgress (fair_env 5) (5 * Second) 7 watched_run) \<and>
   map (\<lambda>r. (ID r, Status r)) (batch_runs (store watched_run)) = [(1, BatchStatusRunning)] \<and>
   nextSendAt (worker watched_run) - 5 * Second = 8234 * Millisecond \<and>
   map_sum id NextSendInSeconds (GetProgress (fair_env 5) (5 * Second) 1 watched_run) = Inr 8"
proof -
  have n: "find (\<lambda>r. ID r = 7) (batch_runs (store watched_run)) = None"
    by code_simp
  have r: "map (\<lambda>r. (ID r, Status r)) (batch_runs (store watched_run)) = [(1, BatchStatusRunning)]"
    by code_simp
  have f: "\<not> fails (fair_env 5) DB_GetByID \<and>
     find (\<lambda>r. ID r = 1) (batch_runs (store watched_run)) =
       Some (the (find (\<lambda>r. ID r = 1) (batch_runs (store watched_run))))"
    by code_simp
  have st: "Status (the (find (\<lambda>r. ID r = 1) (batch_runs (store watched_run)))) = BatchStatusRunning"
    by code_simp
  have d: "nextSendAt (worker watched_run) - 5 * Second = 8234 * Millisecond"
    by code_simp
  have v: "max 0 (8234 * Millisecond div Second) = 8"
    by (simp add: Millisecond_def Second_def)
  note t = GetProgress_snapshot [of 7 watched_run "fair_env 5" "5 * Second"]
    GetProgress_snapshot [of 1 watched_run "fair_env 5" "5 * Second"]
  from t(1) n have a: "isl (GetProgress (fair_env 5) (5 * Second) 7 watched_run)"
    by auto
  from t(2) f obtain p where "GetProgress (fair_env 5) (5 * Second) 1 watched_run = Inr p"
    and "NextSendInSeconds p = (if Status (the (find (\<lambda>r. ID r = 1) (batch_runs (store watched_run))))
        = BatchStatusRunning then max 0 ((nextSendAt (worker watched_run) - 5 * Second) div Second) else 0)"
    by blast
  then have "map_sum id NextSendInSeconds (GetProgress (fair_env 5) (5 * Second) 1 watched_run) = Inr 8"
    using st d v by simp
  with n r a d show ?thesis by simp
qed

subsection \<open>The queue is checked again after completion, and by a goroutine after cancellation\<close>




subsection \<open>Startup resumes the running run\<close>

text \<open>
  C8. When the process starts with a store that answers: if the store holds a run in status
  \<open>running\<close> whose draft is found, the worker's active run is that run with the draft's
  text, the pacer is armed, and neither the messages nor the transport have been touched
  (the run's row is only stamped as started again); if no run is \<open>running\<close>, startup
  is the check of the queue. The query for the next message returns a message only if it
  belongs to the run and is \<open>pending\<close>, and returns none exactly when the run has no
  \<open>pending\<close> message left: rows already \<open>sent\<close> or \<open>failed\<close> are never returned.
\<close>

theorem restart_resumes_running_run:
  "(\<forall>active draft.
      reliable env \<and>
      find (\<lambda>r. Status r = BatchStatusRunning) (batch_runs (store s)) = Some active \<and>
      find (\<lambda>d. DraftRowID d = DraftID active) (message_drafts (store s)) = Some draft \<longrightarrow>
        currentRun (worker (restart env s)) =
          Some \<lparr>BatchID = ID active, DraftContent = Content draft, CurrentJID = [], CurrentName = []\<rparr> \<and>
        nextSendAt (worker (restart env s)) = clock_sched env + next_delay env \<and>
        batch_messages (store (restart env s)) = batch_messages (store s) \<and>
        transport_log (restart env s) = transport_log s \<and>
        batch_runs (store (restart env s)) =
          update_rows (\<lambda>r. ID r = ID active)
            (\<lambda>r. r\<lparr>Status := BatchStatusRunning, StartedAt := Some (db_time env)\<rparr>)
            (batch_runs (store s))) \<and>
   (reliable env \<and> find (\<lambda>r. Status r = BatchStatusRunning) (batch_runs (store s)) = None \<longrightarrow>
      restart env s = checkQueue env (s\<lparr>worker := NewWorker, goroutines := []\<rparr>)) \<and>
   (\<forall>m. GetNextPending False i (store s) = Inr (Some m) \<longrightarrow>
      m \<in> set (batch_messages (store s)) \<and> BatchRunID m = i \<and> MsgStatus m = MessageStatusPending) \<and>
   (GetNextPending False i (store s) = Inr None \<longleftrightarrow>
      (\<forall>m \<in> set (batch_messages (store s)). BatchRunID m = i \<longrightarrow> MsgStatus m \<noteq> MessageStatusPending))"
proof (intro conjI allI impI)
  fix active draft
  assume a: "reliable env \<and>
      find (\<lambda>r. Status r = BatchStatusRunning) (batch_runs (store s)) = Some active \<and>
      find (\<lambda>d. DraftRowID d = DraftID active) (message_drafts (store s)) = Some draft"
  let ?s = "s\<lparr>worker := NewWorker, goroutines := []\<rparr>"
  from a have r: "restart env s = startBatch env active ?s"
    by (simp add: restart_def resumeIncompleteRuns_def GetActive_def reliableD)
  from a have d: "find (\<lambda>d. DraftRowID d = DraftID active) (message_drafts (store ?s)) = Some draft"
    by simp
  from a have e: "reliable env" by simp
  note sb = startBatch_started [OF e d]
  show "currentRun (worker (restart env s)) =
          Some \<lparr>BatchID = ID active, DraftContent = Content draft, CurrentJID = [], CurrentName = []\<rparr>"
    using sb(1) r by simp
  show "nextSendAt (worker (restart env s)) = clock_sched env + next_delay env"
    using sb(2) r by simp
  show "batch_messages (store (restart env s)) = batch_messages (store s)"
    using sb(3) r by simp
  show "transport_log (restart env s) = transport_log s"
    using sb(4) r by simp
  show "batch_runs (store (restart env s)) =
          update_rows (\<lambda>r. ID r = ID active)
            (\<lambda>r. r\<lparr>Status := BatchStatusRunning, StartedAt := Some (db_time env)\<rparr>)
            (batch_runs (store s))"
    using sb(3) r by simp
next
  assume "reliable env \<and> find (\<lambda>r. Status r = BatchStatusRunning) (batch_runs (store s)) = None"
  then show "restart env s = checkQueue env (s\<lparr>worker := NewWorker, goroutines := []\<rparr>)"
    by (simp add: restart_def resumeIncompleteRuns_def GetActive_def reliableD)
next
  fix m assume "GetNextPending False i (store s) = Inr (Some m)"
  then have "m \<in> set (filter (\<lambda>m. BatchRunID m = i \<and> MsgStatus m = MessageStatusPending)
                (batch_messages (store s)))"
    by (auto simp: GetNextPending_def dest: oldest_mem)
  then show "m \<in> set (batch_messages (store s))" "BatchRunID m = i" "MsgStatus m = MessageStatusPending"
    by simp_all
next
  show "GetNextPending False i (store s) = Inr None \<longleftrightarrow>
      (\<forall>m \<in> set (batch_messages (store s)). BatchRunID m = i \<longrightarrow> MsgStatus m \<noteq> MessageStatusPending)"
    by (auto simp: GetNextPending_def oldest_None filter_empty_conv)
qed

theorem restart_witness:
  "reliable (fair_env 30) \<and>
   map (\<lambda>r. (ID r, Status r)) (batch_runs (store crashed_after_one)) = [(1, BatchStatusRunning)] \<and>
   map (\<lambda>m. (MsgID m, MsgStatus m)) (batch_messages (store crashed_after_one)) =
     [(1, MessageStatusSent), (2, MessageStatusPending), (3, MessageStatusPending)] \<and>
   currentRun (worker (restart (fair_env 30) crashed_after_one)) = Some active_one \<and>
   nextSendAt (worker (restart (fair_env 30) crashed_after_one)) = 30 * Second + next_delay (fair_env 30) \<and>
   batch_messages (store (restart (fair_env 30) crashed_after_one)) = batch_messages (store crashed_after_one) \<and>
   transport_log (restart (fair_env 30) crashed_after_one) = transport_log crashed_after_one \<and>
   map_sum id (map_option MsgID) (GetNextPending False 1 (store (restart (fair_env 30) crashed_after_one))) = Inr (Some 2) \<and>
   restart (fair_env 30) init_system = checkQueue (fair_env 30) init_system"
proof -
  let ?s = crashed_after_one
  let ?a = "the (find (\<lambda>r. Status r = BatchStatusRunning) (batch_runs (store ?s)))"
  let ?d = "the (find (\<lambda>d. DraftRowID d = DraftID ?a) (message_drafts (store ?s)))"
  have h: "reliable (fair_env 30) \<and>
      find (\<lambda>r. Status r = BatchStatusRunning) (batch_runs (store ?s)) = Some ?a \<and>
      find (\<lambda>d. DraftRowID d = DraftID ?a) (message_drafts (store ?s)) = Some ?d"
    by code_simp
  have v: "\<lparr>BatchID = ID ?a, DraftContent = Content ?d, CurrentJID = [], CurrentName = []\<rparr> = active_one"
    by code_simp
  have c: "clock_sched (fair_env 30) = 30 * Second"
    by (simp add: fair_env_def)
  have r: "map (\<lambda>r. (ID r, Status r)) (batch_runs (store ?s)) = [(1, BatchStatusRunning)]"
    by code_simp
  have m: "map (\<lambda>m. (MsgID m, MsgStatus m)) (batch_messages (store ?s)) =
     [(1, MessageStatusSent), (2, MessageStatusPending), (3, MessageStatusPending)]"
    by code_simp
  have n: "map_sum id (map_option MsgID) (GetNextPending False 1 (store (restart (fair_env 30) ?s))) = Inr (Some 2)"
    by code_simp
  have e: "reliable (fair_env 30) \<and>
    find (\<lambda>r. Status r = BatchStatusRunning) (batch_runs (store init_system)) = None"
    by code_simp
  have w: "init_system\<lparr>worker := NewWorker, goroutines := []\<rparr> = init_system"
    by (simp add: init_system_def)
  note t = restart_resumes_running_run [of "fair_env 30" ?s 1, THEN conjunct1, rule_format, OF h]
  note u = restart_resumes_running_run [of "fair_env 30" init_system 1, THEN conjunct2, THEN conjunct1, rule_format, OF e]
  from t u h r m n show ?thesis
    by (simp add: v c w)
qed

subsection \<open>Two runs can be running at once\<close>

text \<open>
  C1 does not hold of the code. \<open>checkQueue\<close> reads \<open>currentRun\<close> and releases the
  lock before it queries the store and starts the run it finds, and \<open>CancelBatch\<close> runs
  it in a goroutine of its own, next to the ticker. In the schedule \<open>cancel_race\<close>, where
  no store call fails, the goroutine and a tick both see no active run, and each starts a
  different queued run: two runs are \<open>running\<close>.
\<close>

theorem cancel_race_two_running:
  "list_all reliable_event cancel_race \<and>
   map (\<lambda>r. (ID r, Status r)) (batch_runs (store (exec cancel_race init_system))) =
     [(1, BatchStatusCancelled), (2, BatchStatusRunning), (3, BatchStatusRunning)] \<and>
   count_running (store (exec cancel_race init_system)) = 2"
  by code_simp

text \<open>The same state is reached without any goroutine when \<open>Complete\<close> returns an
  error, which \<open>completeBatch\<close> does not look at: the run stays \<open>running\<close> in the store
  while the worker forgets it and starts the next one.\<close>

lemma complete_error_two_running:
  "map (\<lambda>r. (ID r, Status r)) (batch_runs (store (exec complete_error init_system))) =
     [(1, BatchStatusRunning), (2, BatchStatusRunning)] \<and>
   count_running (store (exec complete_error init_system)) = 2"
  by code_simp

subsection \<open>The counters of a run\<close>


text \<open>
  The other direction fails as well, with every store call answered. The handler inserts
  the run and then its messages, in two store calls with no lock held between them: a run
  that the worker starts after the first call is completed by the first due tick, which
  finds no pending message, and the messages inserted afterwards stay \<open>pending\<close> under a
  \<open>completed\<close> run whose counters are 0.
\<close>

lemma completed_below_total:
  "list_all reliable_event completed_before_insert \<and>
   map (\<lambda>r. (ID r, Status r, SentCount r, FailedCount r, TotalCount r))
     (batch_runs (store (exec completed_before_insert init_system))) =
     [(1, BatchStatusCompleted, 0, 0, 2)] \<and>
   map (\<lambda>m. (MsgID m, BatchRunID m, MsgStatus m))
     (batch_messages (store (exec completed_before_insert init_system))) =
     [(1, 1, MessageStatusPending), (2, 1, MessageStatusPending)]"
  by code_simp

text \<open>
  So does a process that dies between \<open>MarkSent\<close> and \<open>IncrementSentCount\<close>: the
  message is \<open>sent\<close>, the counter was never incremented, and the run resumed after the
  restart is completed with the counters below the total.
\<close>

lemma completed_below_total_after_death:
  "list_all reliable_event died_before_increment \<and>
   map (\<lambda>r. (ID r, Status r, SentCount r, FailedCount r, TotalCount r))
     (batch_runs (store (exec died_before_increment init_system))) =
     [(1, BatchStatusCompleted, 0, 0, 1)] \<and>
   map (\<lambda>m. (MsgID m, BatchRunID m, MsgStatus m))
     (batch_messages (store (exec died_before_increment init_system))) =
     [(1, 1, MessageStatusSent)]"
  by code_simp



text \<open>When the writes of the message's status fail and the increment of the counter does
  not, the message stays \<open>pending\<close> and is sent again at the next due tick, and the
  counter passes the total.\<close>

lemma counter_passes_total_on_store_errors:
  "map (\<lambda>r. (ID r, Status r, SentCount r, FailedCount r, TotalCount r))
     (batch_runs (store (exec sent_twice init_system))) = [(1, BatchStatusRunning, 2, 0, 1)] \<and>
   map fst (transport_log (exec sent_twice init_system)) = [1, 1]"
  by code_simp

subsection \<open>Messages only move forward\<close>

text \<open>
  C3. Take any state reached from the empty store and any one step from it, and follow
  the step through its trace: for a tick, the store and the transport after each store
  call and each transport call that the tick makes, in the order of \<open>sendMessage\<close>, up
  to the death of the process if it dies in the tick. From each position of the trace to
  the next, a message found at both (by its identifier) is the same row or has moved
  forward from \<open>pending\<close> or from \<open>sending\<close>, never back, never to the status it had and
  never out of \<open>sent\<close> or \<open>failed\<close>; and what the transport is handed is never a
  message that the store holds as \<open>sent\<close> or \<open>failed\<close> at that moment. This holds
  whatever the environment does. When the store calls of the step are answered, each move is one
  arrow of \<open>pending\<close> to \<open>sending\<close> to \<open>sent\<close> or \<open>failed\<close>. The trace begins with the
  state before the step and ends with the state after it.
\<close>

theorem message_status_only_forward:
  "step_trace ev (exec evs init_system) \<noteq> [] \<and>
   hd (step_trace ev (exec evs init_system)) = outside_of (exec evs init_system) \<and>
   last (step_trace ev (exec evs init_system)) = outside_of (step ev (exec evs init_system)) \<and>
   successively (link moves_forward) (step_trace ev (exec evs init_system)) \<and>
   (reliable_event ev \<longrightarrow> successively (link arrow) (step_trace ev (exec evs init_system)))"
  using step_trace_ends [of ev "exec evs init_system"]
    step_trace_links [OF ids_ok_exec [OF init_ok(1), of evs], of ev]
  by simp

theorem forward_witness:
  "reliable_event (Tick (fair_env 40)) \<and>
   map (\<lambda>out. (map MsgStatus (batch_messages (fst out)), map fst (snd out)))
     (step_trace (Tick (fair_env 40)) (exec (take 4 three_sent) init_system)) =
     [([MessageStatusSent, MessageStatusPending, MessageStatusPending], [1]),
      ([MessageStatusSent, MessageStatusSending, MessageStatusPending], [1]),
      ([MessageStatusSent, MessageStatusSending, MessageStatusPending], [1, 2]),
      ([MessageStatusSent, MessageStatusSent, MessageStatusPending], [1, 2]),
      ([MessageStatusSent, MessageStatusSent, MessageStatusPending], [1, 2])] \<and>
   successively (link arrow) (step_trace (Tick (fair_env 40)) (exec (take 4 three_sent) init_system))"
proof -
  have a: "reliable_event (Tick (fair_env 40))"
    by code_simp
  have b: "map (\<lambda>out. (map MsgStatus (batch_messages (fst out)), map fst (snd out)))
     (step_trace (Tick (fair_env 40)) (exec (take 4 three_sent) init_system)) =
     [([MessageStatusSent, MessageStatusPending, MessageStatusPending], [1]),
      ([MessageStatusSent, MessageStatusSending, MessageStatusPending], [1]),
      ([MessageStatusSent, MessageStatusSending, MessageStatusPending], [1, 2]),
      ([MessageStatusSent, MessageStatusSent, MessageStatusPending], [1, 2]),
      ([MessageStatusSent, MessageStatusSent, MessageStatusPending], [1, 2])]"
    by code_simp
  from message_status_only_forward [where ev = "Tick (fair_env 40)" and evs = "take 4 three_sent"] a
  have "successively (link arrow) (step_trace (Tick (fair_env 40)) (exec (take 4 three_sent) init_system))"
    by blast
  with a b show ?thesis
    by blast
qed

end
